theory Spec2Isabelle
  imports Main "HOL-Library.AList" "HOL-Library.Sublist"
begin

section \<open>Values, parameter objects and object spread\<close>

text \<open>
  Request parameters are JavaScript objects. An object is the list of its own properties
  in insertion order, each key once. \<open>JModel\<close> is a resolved model handle: an object
  the engine hands on or wraps and never looks into, apart from its \<open>modelId\<close>.
\<close>

datatype lmodel = Model string | Wrapped lmodel "string list"

fun modelId :: "lmodel \<Rightarrow> string" where
  "modelId (Model i) = i"
| "modelId (Wrapped m ms) = modelId m"

datatype jsval =
    JUndefined
  | JNull
  | JBool bool
  | JNum int
  | JStr string
  | JArr "jsval list"
  | JObj "(string \<times> jsval) list"
  | JModel lmodel

type_synonym jsobject = "(string \<times> jsval) list"

text \<open>
  \<open>{ ...a, ...b }\<close>: the properties of \<open>a\<close>, each property of \<open>b\<close> written over
  them in turn. A key of \<open>b\<close> that \<open>a\<close> has keeps its place, a new key goes to the end; a
  key of \<open>b\<close> whose value is \<open>undefined\<close> is written like any other.
\<close>

definition spread :: "jsobject \<Rightarrow> jsobject \<Rightarrow> jsobject" where
  "spread a b = foldl (\<lambda>acc (k, v). AList.update k v acc) a b"

definition getProp :: "jsobject \<Rightarrow> string \<Rightarrow> jsval" where
  "getProp ob k = (case map_of ob k of Some v \<Rightarrow> v | None \<Rightarrow> JUndefined)"

text \<open>
  The deep merge that section 8 of the specification names, written from its words for
  comparison with \<open>spread\<close>: where both sides hold an object under a key, the two
  objects are merged in turn; everywhere else the patch's value is written over.
\<close>

function deepMerge :: "jsobject \<Rightarrow> jsobject \<Rightarrow> jsobject" where
  "deepMerge a [] = a"
| "deepMerge a ((k, v) # b) =
     (case (map_of a k, v) of
        (Some (JObj x), JObj y) \<Rightarrow> deepMerge (AList.update k (JObj (deepMerge x y)) a) b
      | _ \<Rightarrow> deepMerge (AList.update k v a) b)"
  by pat_completeness auto
termination
  by (relation "measure (\<lambda>(a, b). size (JObj b))") auto

section \<open>Usage records and their accumulation (StreamEventManager)\<close>

text \<open>
  A property of a JavaScript object is absent, present with the value \<open>undefined\<close>, or
  present with a value. The type guards of the source test presence (\<open>'k' in o\<close>), the
  arithmetic reads the value (\<open>o.k || 0\<close>), so both are kept. Token counts are integers.
\<close>

datatype 'a jsfield = Absent | Undef | Val 'a

fun or0 :: "int jsfield \<Rightarrow> int" where
  "or0 (Val n) = n"
| "or0 _ = 0"

record inputTokenDetails =
  noCacheTokens :: "int jsfield"
  cacheReadTokens :: "int jsfield"
  cacheWriteTokens :: "int jsfield"

record outputTokenDetails =
  textTokens :: "int jsfield"
  reasoningTokens :: "int jsfield"

text \<open>
  One record type for \<open>Partial<AiSdkUsage>\<close>: the keys of the three usage types of the
  \<open>ai\<close> package. \<open>usageReasoningTokens\<close> and \<open>cachedInputTokens\<close> are the two further
  top-level keys that the accumulator of the prompt-tool-use plugin is created with.
\<close>

record usage =
  inputTokens :: "int jsfield"
  outputTokens :: "int jsfield"
  totalTokens :: "int jsfield"
  inputTokenDetails :: "inputTokenDetails jsfield"
  outputTokenDetails :: "outputTokenDetails jsfield"
  tokens :: "int jsfield"
  usageReasoningTokens :: "int jsfield"
  cachedInputTokens :: "int jsfield"

definition isLanguageModelUsage :: "usage \<Rightarrow> bool" where
  "isLanguageModelUsage u \<longleftrightarrow>
     totalTokens u \<noteq> Absent \<or> inputTokens u \<noteq> Absent \<or> outputTokens u \<noteq> Absent"

definition isImageModelUsage :: "usage \<Rightarrow> bool" where
  "isImageModelUsage u \<longleftrightarrow>
     inputTokens u \<noteq> Absent \<and> outputTokens u \<noteq> Absent \<and>
     inputTokenDetails u = Absent \<and> outputTokenDetails u = Absent"

definition isEmbeddingModelUsage :: "usage \<Rightarrow> bool" where
  "isEmbeddingModelUsage u \<longleftrightarrow>
     tokens u \<noteq> Absent \<and> inputTokens u = Absent \<and> outputTokens u = Absent"

definition addTokenCounts :: "usage \<Rightarrow> usage \<Rightarrow> usage" where
  "addTokenCounts target source =
     target\<lparr>totalTokens := Val (or0 (totalTokens target) + or0 (totalTokens source)),
            inputTokens := Val (or0 (inputTokens target) + or0 (inputTokens source)),
            outputTokens := Val (or0 (outputTokens target) + or0 (outputTokens source))\<rparr>"

definition newInputTokenDetails :: inputTokenDetails where
  "newInputTokenDetails =
     \<lparr>noCacheTokens = Undef, cacheReadTokens = Undef, cacheWriteTokens = Undef\<rparr>"

definition newOutputTokenDetails :: outputTokenDetails where
  "newOutputTokenDetails = \<lparr>textTokens = Undef, reasoningTokens = Undef\<rparr>"

text \<open>
  \<open>if (source.inputTokenDetails)\<close>: only an object is truthy. A target without the
  object gets a new one, all of whose counts are then assigned.
\<close>

fun sumInputTokenDetails ::
  "inputTokenDetails jsfield \<Rightarrow> inputTokenDetails jsfield \<Rightarrow> inputTokenDetails jsfield" where
  "sumInputTokenDetails target (Val s) =
     (let t = (case target of Val d \<Rightarrow> d | _ \<Rightarrow> newInputTokenDetails)
      in Val (t\<lparr>cacheReadTokens := Val (or0 (cacheReadTokens t) + or0 (cacheReadTokens s)),
                cacheWriteTokens := Val (or0 (cacheWriteTokens t) + or0 (cacheWriteTokens s)),
                noCacheTokens := Val (or0 (noCacheTokens t) + or0 (noCacheTokens s))\<rparr>))"
| "sumInputTokenDetails target _ = target"

fun sumOutputTokenDetails ::
  "outputTokenDetails jsfield \<Rightarrow> outputTokenDetails jsfield \<Rightarrow> outputTokenDetails jsfield" where
  "sumOutputTokenDetails target (Val s) =
     (let t = (case target of Val d \<Rightarrow> d | _ \<Rightarrow> newOutputTokenDetails)
      in Val (t\<lparr>reasoningTokens := Val (or0 (reasoningTokens t) + or0 (reasoningTokens s)),
                textTokens := Val (or0 (textTokens t) + or0 (textTokens s))\<rparr>))"
| "sumOutputTokenDetails target _ = target"

definition addLanguageUsage :: "usage \<Rightarrow> usage \<Rightarrow> usage" where
  "addLanguageUsage target source =
     (addTokenCounts target source)
       \<lparr>inputTokenDetails := sumInputTokenDetails (inputTokenDetails target) (inputTokenDetails source),
        outputTokenDetails := sumOutputTokenDetails (outputTokenDetails target) (outputTokenDetails source)\<rparr>"

text \<open>
  \<open>accumulateUsage\<close> mutates its target and returns nothing; the model returns the target
  after the call and the diagnostics written with \<open>console.warn\<close>. \<open>None\<close> is a null or
  undefined operand. No branch throws, so there is no error result.
\<close>

definition typeMismatchWarning :: string where
  "typeMismatchWarning =
     ''[StreamEventManager] Unable to accumulate usage - type mismatch or unknown type''"

definition accumulateUsage :: "usage option \<Rightarrow> usage option \<Rightarrow> usage option \<times> string list" where
  "accumulateUsage target source =
     (case (target, source) of
        (Some t, Some s) \<Rightarrow>
          if isLanguageModelUsage t \<and> isLanguageModelUsage s then
            (Some (addLanguageUsage t s), [])
          else if isImageModelUsage t \<and> isImageModelUsage s then
            (Some (addTokenCounts t s), [])
          else if isEmbeddingModelUsage t \<and> isEmbeddingModelUsage s then
            (Some (t\<lparr>tokens := Val (or0 (tokens t) + or0 (tokens s))\<rparr>), [])
          else (Some t, [typeMismatchWarning])
      | _ \<Rightarrow> (target, []))"

text \<open>Repeated calls on one target, as the stream transform makes them step after step.\<close>

fun accumulateAll :: "usage option \<Rightarrow> usage option list \<Rightarrow> usage option \<times> string list" where
  "accumulateAll target [] = (target, [])"
| "accumulateAll target (s # ss) =
     (case accumulateUsage target s of
        (t', w) \<Rightarrow> (case accumulateAll t' ss of (t'', w') \<Rightarrow> (t'', w @ w')))"

text \<open>
  Modelled from the spec: the three shapes of a usage record, whose type declarations
  (\<open>LanguageModelUsage\<close>, \<open>ImageModelUsage\<close>, \<open>EmbeddingModelUsage\<close> of the \<open>ai\<close> package)
  are not part of the sources. Language-model usage has the three token counts and,
  optionally, the detail fields; image-model usage has the counts without the detail
  fields; embedding usage has \<open>tokens\<close> only. A shape is what the source's guard accepts,
  restricted to the keys the shape has. The detail fields being optional, an image-shaped
  record is language-shaped too.
\<close>

definition language_shape :: "usage \<Rightarrow> bool" where
  "language_shape u \<longleftrightarrow> isLanguageModelUsage u \<and> tokens u = Absent"

definition image_shape :: "usage \<Rightarrow> bool" where
  "image_shape u \<longleftrightarrow> isImageModelUsage u \<and> tokens u = Absent"

definition embedding_shape :: "usage \<Rightarrow> bool" where
  "embedding_shape u \<longleftrightarrow>
     isEmbeddingModelUsage u \<and> totalTokens u = Absent \<and>
     inputTokenDetails u = Absent \<and> outputTokenDetails u = Absent"

definition same_shape :: "usage \<Rightarrow> usage \<Rightarrow> bool" where
  "same_shape a b \<longleftrightarrow>
     language_shape a \<and> language_shape b \<or> image_shape a \<and> image_shape b \<or>
     embedding_shape a \<and> embedding_shape b"

definition emptyUsage :: usage where
  "emptyUsage = \<lparr>inputTokens = Absent, outputTokens = Absent, totalTokens = Absent,
     inputTokenDetails = Absent, outputTokenDetails = Absent, tokens = Absent,
     usageReasoningTokens = Absent, cachedInputTokens = Absent\<rparr>"

definition counts :: "int \<Rightarrow> int \<Rightarrow> int \<Rightarrow> usage" where
  "counts i out t = emptyUsage\<lparr>inputTokens := Val i, outputTokens := Val out, totalTokens := Val t\<rparr>"

definition detailed :: usage where
  "detailed = (counts 7 8 15)\<lparr>
     inputTokenDetails := Val \<lparr>noCacheTokens = Val 3, cacheReadTokens = Val 4, cacheWriteTokens = Undef\<rparr>,
     outputTokenDetails := Val \<lparr>textTokens = Val 6, reasoningTokens = Val 2\<rparr>\<rparr>"

section \<open>Request context, plugins and the plugin manager\<close>

text \<open>
  What a JavaScript \<open>throw\<close> carries: \<open>undefined\<close> (anything may be thrown), a plain
  \<open>Error\<close>, a \<open>TypeError\<close> of the runtime, or one of the two errors of the engine.
\<close>

datatype thrown =
    ThrownUndefined
  | Error string
  | TypeError string
  | ModelResolutionError string string
  | RecursiveDepthError string int int

text \<open>
  How a hook call ends: it returns (or its promise fulfils), its promise rejects, or the
  hook, written as a plain function, throws before it returns anything. A promise rejects
  at some moment: \<open>Rejected e\<close> is a promise that rejects without waiting for anything
  (the body of an \<open>async\<close> function throws), \<open>RejectedLater n e\<close> one that rejects after
  it has waited, \<open>n\<close> measuring for how long. An \<open>await\<close> turns every failure into a
  throw; a \<open>map\<close> over hooks stops at \<open>Threw\<close> only; \<open>Promise.all\<close> is where the moment
  counts.
\<close>

datatype 'a outcome = Resolved 'a | Rejected thrown | Threw thrown | RejectedLater nat thrown

fun settled :: "'a outcome \<Rightarrow> thrown + 'a" where
  "settled (Resolved a) = Inr a"
| "settled (Rejected e) = Inl e"
| "settled (Threw e) = Inl e"
| "settled (RejectedLater n e) = Inl e"

text \<open>
  The rejection of a promise, if it rejects, with the moment of it: \<open>0\<close> for a promise
  that does not wait.
\<close>

fun rejectionOf :: "'a outcome \<Rightarrow> (nat \<times> thrown) list" where
  "rejectionOf (Rejected e) = [(0, e)]"
| "rejectionOf (RejectedLater n e) = [(Suc n, e)]"
| "rejectionOf _ = []"

text \<open>
  The first rejection in time among \<open>r\<close> and the ones after it in the list; of two at the
  same moment, the one that comes first in the list.
\<close>

fun firstRejection :: "nat \<times> thrown \<Rightarrow> (nat \<times> thrown) list \<Rightarrow> thrown" where
  "firstRejection r [] = snd r"
| "firstRejection r (s # rs) = firstRejection (if fst s < fst r then s else r) rs"

text \<open>
  The context of a request: one mutable object that every hook receives; the model passes
  it through each call. \<open>recursiveCall\<close> holds what the closure installed by the engine
  captured, the parameters of the frame that installed it; \<open>None\<close> is the placeholder of
  \<open>createContext\<close>. \<open>mcpTools\<close>, \<open>accumulatedUsage\<close> and \<open>hasExecutedToolsInCurrentStep\<close>
  are the properties the prompt-tool-use plugin adds; the last one is only ever tested for
  truth, so an absent value is \<open>False\<close>.
\<close>

record ctx =
  providerId :: string
  model :: jsval
  originalParams :: jsobject
  metadata :: jsobject
  startTime :: int
  requestId :: string
  recursiveCall :: "jsobject option"
  isRecursiveCall :: bool
  recursiveDepth :: int
  maxRecursiveDepth :: int
  mcpTools :: "jsobject option"
  extensions :: "(string \<times> jsval) list"
  middlewares :: "string list option"
  accumulatedUsage :: "usage option"
  hasExecutedToolsInCurrentStep :: bool

text \<open>
  \<open>createContext\<close>. \<open>Date.now()\<close> and the random suffix of the request id are inputs:
  \<open>now\<close> and \<open>stamp\<close>.
\<close>

definition createContext :: "string \<Rightarrow> jsval \<Rightarrow> jsobject \<Rightarrow> int \<Rightarrow> string \<Rightarrow> ctx" where
  "createContext pid m params now stamp =
     \<lparr>providerId = pid, model = m, originalParams = params, metadata = [],
      startTime = now,
      requestId = pid @ ''-'' @
        (case m of JStr s \<Rightarrow> s | JModel h \<Rightarrow> modelId h | _ \<Rightarrow> ''undefined'') @ ''-'' @ stamp,
      recursiveCall = None, isRecursiveCall = False, recursiveDepth = 0,
      maxRecursiveDepth = 10, mcpTools = None, extensions = [], middlewares = Some [],
      accumulatedUsage = None, hasExecutedToolsInCurrentStep = False\<rparr>"

datatype enforce = Pre | Post

text \<open>
  A plugin: its name, its tier and the hooks it implements. A hook is a function of its
  arguments and the context that gives how the call ends and the context as the hook
  left it. \<open>'r\<close> is the result type of the call shape, \<open>'t\<close> what \<open>transformStream\<close>
  returns (a factory of stream transforms).
\<close>

record ('r, 't) plugin =
  name :: string
  enforce :: "enforce option"
  resolveModel :: "(string \<Rightarrow> ctx \<Rightarrow> lmodel option outcome \<times> ctx) option"
  configureContext :: "(ctx \<Rightarrow> unit outcome \<times> ctx) option"
  transformParams :: "(jsobject \<Rightarrow> ctx \<Rightarrow> jsobject outcome \<times> ctx) option"
  transformResult :: "('r \<Rightarrow> ctx \<Rightarrow> 'r outcome \<times> ctx) option"
  onRequestStart :: "(ctx \<Rightarrow> unit outcome \<times> ctx) option"
  onRequestEnd :: "(ctx \<Rightarrow> 'r \<Rightarrow> unit outcome \<times> ctx) option"
  onError :: "(thrown \<Rightarrow> ctx \<Rightarrow> unit outcome \<times> ctx) option"
  transformStream :: "(jsobject \<Rightarrow> ctx \<Rightarrow> 't) option"

text \<open>
  The calls a run makes, in order: the model's record of what the engine did. It is not
  in the source; it is how a theorem says that a hook ran, with which argument, or that
  the executor was given a certain model.
\<close>

datatype 'r event =
    ConfigureContextCall string
  | OnRequestStartCall string
  | ResolveModelCall string string
  | TransformParamsCall string jsobject "jsobject option"
  | ExecutorCall lmodel jsobject
  | TransformResultCall string
  | OnRequestEndCall string 'r
  | OnErrorCall string thrown

type_synonym ('a, 'r) step = "ctx \<Rightarrow> (thrown + 'a) \<times> ctx \<times> 'r event list"

text \<open>One awaited step after another: a failure ends the sequence.\<close>

definition andThen :: "('a, 'r) step \<Rightarrow> ('a \<Rightarrow> ('b, 'r) step) \<Rightarrow> ('b, 'r) step" where
  "andThen m f c =
     (case m c of
        (Inl e, c', l) \<Rightarrow> (Inl e, c', l)
      | (Inr a, c', l) \<Rightarrow> (case f a c' of (r, c'', l') \<Rightarrow> (r, c'', l @ l')))"

definition sortPlugins :: "('r, 't) plugin list \<Rightarrow> ('r, 't) plugin list" where
  "sortPlugins plugins =
     filter (\<lambda>p. enforce p = Some Pre) plugins @
     filter (\<lambda>p. enforce p \<noteq> Some Pre \<and> enforce p \<noteq> Some Post) plugins @
     filter (\<lambda>p. enforce p = Some Post) plugins"

text \<open>\<open>executeFirst\<close> for the \<open>resolveModel\<close> hook; \<open>None\<close> is null or undefined.\<close>

fun executeFirst :: "('r, 't) plugin list \<Rightarrow> string \<Rightarrow> (lmodel option, 'r) step" where
  "executeFirst [] arg c = (Inr None, c, [])"
| "executeFirst (p # ps) arg c =
     (case resolveModel p of
        None \<Rightarrow> executeFirst ps arg c
      | Some hook \<Rightarrow>
          (case hook arg c of (out, c') \<Rightarrow>
             (case settled out of
                Inl e \<Rightarrow> (Inl e, c', [ResolveModelCall (name p) arg])
              | Inr (Some m) \<Rightarrow> (Inr (Some m), c', [ResolveModelCall (name p) arg])
              | Inr None \<Rightarrow>
                  (case executeFirst ps arg c' of (r, c'', l) \<Rightarrow>
                     (r, c'', ResolveModelCall (name p) arg # l)))))"

fun executeTransformParams :: "('r, 't) plugin list \<Rightarrow> jsobject \<Rightarrow> (jsobject, 'r) step" where
  "executeTransformParams [] result c = (Inr result, c, [])"
| "executeTransformParams (p # ps) result c =
     (case transformParams p of
        None \<Rightarrow> executeTransformParams ps result c
      | Some hook \<Rightarrow>
          (case hook result c of (out, c') \<Rightarrow>
             (case settled out of
                Inl e \<Rightarrow> (Inl e, c', [TransformParamsCall (name p) result None])
              | Inr partial \<Rightarrow>
                  (case executeTransformParams ps (spread result partial) c' of (r, c'', l) \<Rightarrow>
                     (r, c'', TransformParamsCall (name p) result (Some partial) # l)))))"

fun executeTransformResult :: "('r, 't) plugin list \<Rightarrow> 'r \<Rightarrow> ('r, 'r) step" where
  "executeTransformResult [] result c = (Inr result, c, [])"
| "executeTransformResult (p # ps) result c =
     (case transformResult p of
        None \<Rightarrow> executeTransformResult ps result c
      | Some hook \<Rightarrow>
          (case hook result c of (out, c') \<Rightarrow>
             (case settled out of
                Inl e \<Rightarrow> (Inl e, c', [TransformResultCall (name p)])
              | Inr transformed \<Rightarrow>
                  (case executeTransformResult ps transformed c' of (r, c'', l) \<Rightarrow>
                     (r, c'', TransformResultCall (name p) # l)))))"

fun executeConfigureContext :: "('r, 't) plugin list \<Rightarrow> (unit, 'r) step" where
  "executeConfigureContext [] c = (Inr (), c, [])"
| "executeConfigureContext (p # ps) c =
     (case configureContext p of
        None \<Rightarrow> executeConfigureContext ps c
      | Some hook \<Rightarrow>
          (case hook c of (out, c') \<Rightarrow>
             (case settled out of
                Inl e \<Rightarrow> (Inl e, c', [ConfigureContextCall (name p)])
              | Inr u \<Rightarrow>
                  (case executeConfigureContext ps c' of (r, c'', l) \<Rightarrow>
                     (r, c'', ConfigureContextCall (name p) # l)))))"

datatype parallelHook = OnRequestStart | OnRequestEnd | OnError

text \<open>
  The call \<open>executeParallel\<close> makes for one plugin, if any: the hook must exist, and
  \<open>onError\<close> is called only with an error that is not \<open>undefined\<close>, \<open>onRequestEnd\<close> only
  with a result that is not \<open>undefined\<close>.
\<close>

definition parallelCall ::
  "parallelHook \<Rightarrow> ('r, 't) plugin \<Rightarrow> 'r option \<Rightarrow> thrown option \<Rightarrow>
   ((ctx \<Rightarrow> unit outcome \<times> ctx) \<times> 'r event) option" where
  "parallelCall hookName p result error =
     (case hookName of
        OnError \<Rightarrow>
          (case (onError p, error) of
             (Some hook, Some e) \<Rightarrow> Some (hook e, OnErrorCall (name p) e)
           | _ \<Rightarrow> None)
      | OnRequestEnd \<Rightarrow>
          (case (onRequestEnd p, result) of
             (Some hook, Some r) \<Rightarrow> Some (\<lambda>c. hook c r, OnRequestEndCall (name p) r)
           | _ \<Rightarrow> None)
      | OnRequestStart \<Rightarrow>
          (case onRequestStart p of
             Some hook \<Rightarrow> Some (hook, OnRequestStartCall (name p))
           | None \<Rightarrow> None))"

text \<open>
  The \<open>map\<close> of \<open>executeParallel\<close>: every plugin's hook is called in turn, and the promises
  are collected; a hook that throws instead of returning a promise ends the \<open>map\<close>, and
  with it the call. The result is the rejections of the promises, each with its moment, in
  the plugins' order. What the hooks do to the context is applied in the order of their
  calls: the single thread starts them in this order, and the model takes no other
  interleaving of their effects.
\<close>

fun invokeHooks ::
  "parallelHook \<Rightarrow> ('r, 't) plugin list \<Rightarrow> 'r option \<Rightarrow> thrown option \<Rightarrow>
   ((nat \<times> thrown) list, 'r) step" where
  "invokeHooks hookName [] result error c = (Inr [], c, [])"
| "invokeHooks hookName (p # ps) result error c =
     (case parallelCall hookName p result error of
        None \<Rightarrow> invokeHooks hookName ps result error c
      | Some (call, ev) \<Rightarrow>
          (case call c of
             (Threw e, c') \<Rightarrow> (Inl e, c', [ev])
           | (out, c') \<Rightarrow>
               (case invokeHooks hookName ps result error c' of
                  (Inl e, c'', l) \<Rightarrow> (Inl e, c'', ev # l)
                | (Inr rejections, c'', l) \<Rightarrow>
                    (Inr (rejectionOf out @ rejections), c'', ev # l))))"

text \<open>
  \<open>await Promise.all(promises)\<close>: when a promise rejects, \<open>Promise.all\<close> rejects with that
  rejection, so what is thrown is the first rejection in time, not the one of the first
  plugin in the list; with no rejection the call returns.
\<close>

definition executeParallel ::
  "parallelHook \<Rightarrow> ('r, 't) plugin list \<Rightarrow> 'r option \<Rightarrow> thrown option \<Rightarrow> (unit, 'r) step" where
  "executeParallel hookName plugins result error c =
     (case invokeHooks hookName plugins result error c of
        (Inl e, c', l) \<Rightarrow> (Inl e, c', l)
      | (Inr [], c', l) \<Rightarrow> (Inr (), c', l)
      | (Inr (r # rs), c', l) \<Rightarrow> (Inl (firstRejection r rs), c', l))"

definition collectStreamTransforms :: "('r, 't) plugin list \<Rightarrow> jsobject \<Rightarrow> ctx \<Rightarrow> 't list" where
  "collectStreamTransforms plugins params c =
     concat (map (\<lambda>p. case transformStream p of Some f \<Rightarrow> [f params c] | None \<Rightarrow> []) plugins)"

section \<open>The lifecycle engine (PluginEngine)\<close>

text \<open>
  The engine has one method per call shape: \<open>executeWithPlugins\<close>,
  \<open>executeImageWithPlugins\<close> and \<open>executeStreamWithPlugins\<close>. The three are the same text
  but for the middleware step and, in the streaming one, the stream transforms handed to
  the executor; \<open>lifecycle\<close> is that text, with the shape as a parameter.
\<close>

datatype callShape = GenerateText | GenerateImage | StreamText

type_synonym ('r, 't) executor = "lmodel \<Rightarrow> jsobject \<Rightarrow> 't list \<Rightarrow> 'r outcome"

text \<open>
  Step 2: a string is resolved by the first plugin that knows it; a handle is used as it
  is. The error names the engine's own provider id.
\<close>

definition resolveStep ::
  "('r, 't) plugin list \<Rightarrow> string \<Rightarrow> lmodel option \<Rightarrow> string \<Rightarrow> (lmodel, 'r) step" where
  "resolveStep plugins pid handle mid =
     (case handle of
        None \<Rightarrow>
          andThen (executeFirst plugins mid)
            (\<lambda>resolved c. case resolved of
                 None \<Rightarrow> (Inl (ModelResolutionError mid pid), c, [])
               | Some m \<Rightarrow> (Inr m, c, []))
      | Some m \<Rightarrow> (\<lambda>c. (Inr m, c, [])))"

text \<open>
  Step 2.5, \<open>wrapLanguageModel({ model, middleware: context.middlewares })\<close>: the text
  method wraps whenever the list is not empty, the streaming method only when the model
  did not arrive as a string, the image method has no such step.
\<close>

definition wrapLanguageModel :: "lmodel \<Rightarrow> string list \<Rightarrow> lmodel" where
  "wrapLanguageModel m middleware = Wrapped m middleware"

definition applyMiddlewares :: "callShape \<Rightarrow> bool \<Rightarrow> ctx \<Rightarrow> lmodel \<Rightarrow> lmodel" where
  "applyMiddlewares shape modelIsString c resolvedModel =
     (case shape of
        GenerateText \<Rightarrow>
          (case middlewares c of
             Some ms \<Rightarrow> if ms \<noteq> [] then wrapLanguageModel resolvedModel ms else resolvedModel
           | None \<Rightarrow> resolvedModel)
      | StreamText \<Rightarrow>
          (case middlewares c of
             Some ms \<Rightarrow>
               if \<not> modelIsString \<and> ms \<noteq> [] then wrapLanguageModel resolvedModel ms
               else resolvedModel
           | None \<Rightarrow> resolvedModel)
      | GenerateImage \<Rightarrow> resolvedModel)"

definition callExecutor ::
  "callShape \<Rightarrow> ('r, 't) plugin list \<Rightarrow> ('r, 't) executor \<Rightarrow> lmodel \<Rightarrow> jsobject \<Rightarrow> ('r, 'r) step" where
  "callExecutor shape plugins executor m params c =
     (settled (executor m params
        (if shape = StreamText then collectStreamTransforms plugins params c else [])),
      c, [ExecutorCall m params])"

text \<open>The body of the \<open>try\<close> block, steps 0 to 6.\<close>

definition requestBody ::
  "callShape \<Rightarrow> ('r, 't) plugin list \<Rightarrow> string \<Rightarrow> ('r, 't) executor \<Rightarrow> jsobject \<Rightarrow>
   lmodel option \<Rightarrow> string \<Rightarrow> ('r, 'r) step" where
  "requestBody shape plugins pid executor params handle mid =
     andThen (executeConfigureContext plugins) (\<lambda>_.
     andThen (executeParallel OnRequestStart plugins None None) (\<lambda>_.
     andThen (resolveStep plugins pid handle mid) (\<lambda>resolved.
     andThen (\<lambda>c. (Inr (applyMiddlewares shape (handle = None) c resolved), c, [])) (\<lambda>resolvedModel.
     andThen (executeTransformParams plugins params) (\<lambda>transformedParams.
     andThen (callExecutor shape plugins executor resolvedModel transformedParams) (\<lambda>result.
     andThen (executeTransformResult plugins result) (\<lambda>transformedResult.
     andThen (executeParallel OnRequestEnd plugins (Some transformedResult) None) (\<lambda>_ c.
       (Inr transformedResult, c, [])))))))))"

text \<open>
  The \<open>catch\<close>: \<open>executeParallel('onError', context, undefined, error)\<close>, then
  \<open>throw error\<close>. A failure of the \<open>onError\<close> step is what leaves the method instead.
\<close>

definition errorArgument :: "thrown \<Rightarrow> thrown option" where
  "errorArgument e = (if e = ThrownUndefined then None else Some e)"

definition catchError :: "('r, 't) plugin list \<Rightarrow> ('r, 'r) step \<Rightarrow> ('r, 'r) step" where
  "catchError plugins body c =
     (case body c of
        (Inr r, c', l) \<Rightarrow> (Inr r, c', l)
      | (Inl e, c', l) \<Rightarrow>
          (case executeParallel OnError plugins None (errorArgument e) c' of
             (Inl e', c'', l') \<Rightarrow> (Inl e', c'', l @ l')
           | (Inr u, c'', l') \<Rightarrow> (Inl e, c'', l @ l')))"

text \<open>
  A method of the engine, from its first line: the model parameter is read (a value that
  is neither a string nor a handle has no \<open>modelId\<close> to read, its type excludes it), the
  context is the one passed in or a new one, the manager sorts the plugins, the closure
  is installed on the context, and the \<open>try\<close> block runs.
\<close>

definition lifecycle ::
  "callShape \<Rightarrow> ('r, 't) plugin list \<Rightarrow> string \<Rightarrow> ('r, 't) executor \<Rightarrow> jsobject \<Rightarrow>
   ctx option \<Rightarrow> int \<Rightarrow> string \<Rightarrow> (thrown + 'r) \<times> ctx \<times> 'r event list" where
  "lifecycle shape basePlugins pid executor params givenContext now stamp =
     (let m = getProp params ''model'';
          context = (case givenContext of
                       Some c \<Rightarrow> c
                     | None \<Rightarrow> createContext pid m params now stamp);
          plugins = sortPlugins basePlugins;
          installed = context\<lparr>recursiveCall := Some params\<rparr>
      in case m of
           JStr mid \<Rightarrow>
             catchError plugins (requestBody shape plugins pid executor params None mid) installed
         | JModel h \<Rightarrow>
             catchError plugins
               (requestBody shape plugins pid executor params (Some h) (modelId h)) installed
         | _ \<Rightarrow> (Inl (TypeError ''model.modelId''), context, []))"

definition executeWithPlugins ::
  "('r, 't) plugin list \<Rightarrow> string \<Rightarrow> ('r, 't) executor \<Rightarrow> jsobject \<Rightarrow>
   ctx option \<Rightarrow> int \<Rightarrow> string \<Rightarrow> (thrown + 'r) \<times> ctx \<times> 'r event list" where
  "executeWithPlugins = lifecycle GenerateText"

definition executeImageWithPlugins ::
  "('r, 't) plugin list \<Rightarrow> string \<Rightarrow> ('r, 't) executor \<Rightarrow> jsobject \<Rightarrow>
   ctx option \<Rightarrow> int \<Rightarrow> string \<Rightarrow> (thrown + 'r) \<times> ctx \<times> 'r event list" where
  "executeImageWithPlugins = lifecycle GenerateImage"

definition executeStreamWithPlugins ::
  "('r, 't) plugin list \<Rightarrow> string \<Rightarrow> ('r, 't) executor \<Rightarrow> jsobject \<Rightarrow>
   ctx option \<Rightarrow> int \<Rightarrow> string \<Rightarrow> (thrown + 'r) \<times> ctx \<times> 'r event list" where
  "executeStreamWithPlugins = lifecycle StreamText"

text \<open>
  The closure \<open>context.recursiveCall\<close> that a method installs. \<open>params\<close> are the
  parameters of the frame that installed it. The nested call is the same method on the
  same context; the \<open>finally\<close> writes the two saved values back whether the nested call
  returned or threw.
\<close>

definition recursiveCallFn ::
  "callShape \<Rightarrow> ('r, 't) plugin list \<Rightarrow> string \<Rightarrow> ('r, 't) executor \<Rightarrow> jsobject \<Rightarrow>
   jsobject \<Rightarrow> ('r, 'r) step" where
  "recursiveCallFn shape basePlugins pid executor params newParams context =
     (if recursiveDepth context \<ge> maxRecursiveDepth context then
        (Inl (RecursiveDepthError (requestId context) (recursiveDepth context)
                (maxRecursiveDepth context)), context, [])
      else
        let previousDepth = recursiveDepth context;
            wasRecursive = isRecursiveCall context
        in case lifecycle shape basePlugins pid executor (spread params newParams)
                  (Some (context\<lparr>recursiveDepth := previousDepth + 1, isRecursiveCall := True\<rparr>))
                  0 [] of
             (r, c', l) \<Rightarrow>
               (r, c'\<lparr>recursiveDepth := previousDepth, isRecursiveCall := wasRecursive\<rparr>, l))"

text \<open>
  \<open>context.recursiveCall(newParams)\<close>: the closure the context holds at the time of the
  call. The placeholder of \<open>createContext\<close> resolves to null, here \<open>None\<close>.
\<close>

definition callRecursive ::
  "callShape \<Rightarrow> ('r, 't) plugin list \<Rightarrow> string \<Rightarrow> ('r, 't) executor \<Rightarrow>
   jsobject \<Rightarrow> ('r option, 'r) step" where
  "callRecursive shape basePlugins pid executor newParams context =
     (case recursiveCall context of
        None \<Rightarrow> (Inr None, context, [])
      | Some params \<Rightarrow>
          (case recursiveCallFn shape basePlugins pid executor params newParams context of
             (Inl e, c', l) \<Rightarrow> (Inl e, c', l)
           | (Inr r, c', l) \<Rightarrow> (Inr (Some r), c', l)))"

text \<open>A log in which the executor is not called.\<close>

definition noExecutorCall :: "'r event list \<Rightarrow> bool" where
  "noExecutorCall l \<longleftrightarrow> (\<forall>m p. ExecutorCall m p \<notin> set l)"

text \<open>
  The hooks that run between \<open>configureContext\<close> and the middleware step leave the list
  of middlewares as they found it: the list is written in the \<open>configureContext\<close> phase.
\<close>

definition keepsMiddlewares :: "('r, 't) plugin list \<Rightarrow> bool" where
  "keepsMiddlewares plugins \<longleftrightarrow>
     (\<forall>p \<in> set plugins.
        (\<forall>hook c. onRequestStart p = Some hook \<longrightarrow> middlewares (snd (hook c)) = middlewares c) \<and>
        (\<forall>hook mid c. resolveModel p = Some hook \<longrightarrow> middlewares (snd (hook mid c)) = middlewares c))"

text \<open>
  Whatever a \<open>resolveModel\<close> hook of the plugins answers for the id, it is this model: the
  id resolves to nothing else.
\<close>

definition resolvesOnlyTo :: "('r, 't) plugin list \<Rightarrow> string \<Rightarrow> lmodel \<Rightarrow> bool" where
  "resolvesOnlyTo plugins mid resolved \<longleftrightarrow>
     (\<forall>p \<in> set plugins. \<forall>hook c m. resolveModel p = Some hook \<longrightarrow>
        fst (hook mid c) = Resolved (Some m) \<longrightarrow> m = resolved)"







text \<open>The patches the \<open>transformParams\<close> hooks returned, and the plugins asked, in call order.\<close>

fun returnedPatches :: "'r event list \<Rightarrow> jsobject list" where
  "returnedPatches [] = []"
| "returnedPatches (TransformParamsCall n given (Some patch) # l) = patch # returnedPatches l"
| "returnedPatches (ev # l) = returnedPatches l"

fun transformParamsCallers :: "'r event list \<Rightarrow> string list" where
  "transformParamsCallers [] = []"
| "transformParamsCallers (TransformParamsCall n given patch # l) = n # transformParamsCallers l"
| "transformParamsCallers (ev # l) = transformParamsCallers l"

section \<open>Stream parts and the stream event manager (StreamEventManager)\<close>

text \<open>
  The parts of a text stream that the tool-use subsystem tells apart, by their \<open>type\<close>:
  \<open>start\<close>, \<open>start-step\<close>, \<open>text-start\<close>, \<open>text-delta\<close>, \<open>text-end\<close>, \<open>finish-step\<close> and
  \<open>finish\<close>; \<open>Other\<close> is a part of any other type (a tool call, a tool result, reasoning),
  which is only ever passed on. A stream is the list of the parts it yields, and the
  error it ends with if it does not end normally.
\<close>

record finishStep =
  finishReason :: string
  rawFinishReason :: jsval
  response :: jsval
  stepUsage :: "usage option"
  providerMetadata :: jsval

datatype chunk =
    Start
  | StartStep
  | TextStart string
  | TextDelta string string
  | TextEnd string
  | FinishStep finishStep
  | Finish string "usage option"
  | Other string

type_synonym stream = "chunk list \<times> thrown option"

fun isFinish :: "chunk \<Rightarrow> bool" where
  "isFinish (Finish r u) = True"
| "isFinish _ = False"

text \<open>
  \<open>sendStepFinishEvent\<close>: the usage of the step is added to the accumulator when both
  exist, and a new \<open>finish-step\<close> part is enqueued that takes the response, the usage and
  the provider metadata of the chunk and nothing else of it.
\<close>

definition accumulateStep :: "finishStep \<Rightarrow> ctx \<Rightarrow> ctx" where
  "accumulateStep fs c =
     (if stepUsage fs \<noteq> None \<and> accumulatedUsage c \<noteq> None
      then c\<lparr>accumulatedUsage := fst (accumulateUsage (accumulatedUsage c) (stepUsage fs))\<rparr>
      else c)"

definition sendStepFinishEvent :: "finishStep \<Rightarrow> ctx \<Rightarrow> string \<Rightarrow> chunk list \<times> ctx" where
  "sendStepFinishEvent fs c reason =
     ([FinishStep \<lparr>finishReason = reason, rawFinishReason = JUndefined, response = response fs,
                   stepUsage = stepUsage fs, providerMetadata = providerMetadata fs\<rparr>],
      accumulateStep fs c)"

text \<open>
  \<open>pipeRecursiveStream\<close>: the loop reads part after part; a \<open>start\<close> part is skipped, a
  \<open>finish\<close> part ends the loop, every other part is enqueued. A read that rejects throws.
\<close>

fun pipeRecursiveStream :: "chunk list \<Rightarrow> thrown option \<Rightarrow> chunk list \<times> thrown option" where
  "pipeRecursiveStream [] err = ([], err)"
| "pipeRecursiveStream (v # vs) err =
     (if v = Start then pipeRecursiveStream vs err
      else if isFinish v then ([], None)
      else (case pipeRecursiveStream vs err of (out, e) \<Rightarrow> (v # out, e)))"

text \<open>
  What \<open>context.recursiveCall(recursiveParams)\<close> and the reading of the stream it
  returns come to, seen from the caller: \<open>None\<close> if they never end; else the context they
  leave and either the error the call threw, or no \<open>fullStream\<close>, or the parts the stream
  yields while it is read together with the error a read ends with.
\<close>

type_synonym recursion = "jsobject \<Rightarrow> ctx \<Rightarrow> ((thrown + stream option) \<times> ctx) option"

text \<open>
  \<open>handleRecursiveCall\<close>: the flag of the step is cleared, the call is made, and a result
  with a \<open>fullStream\<close> is piped into the current stream; without one only a diagnostic is
  written.
\<close>

definition handleRecursiveCall ::
  "recursion \<Rightarrow> jsobject \<Rightarrow> ctx \<Rightarrow> (chunk list \<times> thrown option \<times> ctx) option" where
  "handleRecursiveCall recur recursiveParams c =
     (case recur recursiveParams (c\<lparr>hasExecutedToolsInCurrentStep := False\<rparr>) of
        None \<Rightarrow> None
      | Some (Inl e, c') \<Rightarrow> Some ([], Some e, c')
      | Some (Inr None, c') \<Rightarrow> Some ([], None, c')
      | Some (Inr (Some (parts, err)), c') \<Rightarrow>
          (case pipeRecursiveStream parts err of (out, e) \<Rightarrow> Some (out, e, c')))"

text \<open>
  \<open>buildRecursiveParams\<close>: the parameters last saved on the context, with the step's
  text (if any) as an assistant message and the tool results as a user message appended
  to the messages, and the prompt tools passed again as \<open>tools\<close>.
\<close>

definition message :: "string \<Rightarrow> string \<Rightarrow> jsval" where
  "message role text = JObj [(''role'', JStr role), (''content'', JStr text)]"

definition buildRecursiveParams :: "ctx \<Rightarrow> string \<Rightarrow> string \<Rightarrow> jsobject \<Rightarrow> jsobject" where
  "buildRecursiveParams c textBuffer toolResultsText tools =
     (let params = originalParams c;
          newMessages =
            (case getProp params ''messages'' of JArr ms \<Rightarrow> ms | _ \<Rightarrow> []) @
            (if textBuffer \<noteq> [] then [message ''assistant'' textBuffer] else []) @
            [message ''user'' toolResultsText]
      in spread params [(''messages'', JArr newMessages), (''tools'', JObj tools)])"

section \<open>The prompt-tool-use plugin (createPromptToolUsePlugin)\<close>

datatype toolStatus = Pending | Executed | Failed

record toolUse =
  toolId :: string
  toolName :: string
  arguments :: jsval
  status :: toolStatus

record extraction =
  content :: string
  isTagContent :: bool

text \<open>
  What the plugin is configured with and what it calls. \<open>enabled\<close>, \<open>buildSystemPrompt\<close>,
  \<open>parseToolUse\<close> and \<open>mcpMode\<close> are its configuration. The tag extractor and the tool
  executor are classes whose files are not among the sources; the plugin is modelled for
  any of them: \<open>newExtractor\<close> is a new \<open>TagExtractor\<close>, \<open>processText\<close> its method,
  \<open>executeTools\<close> gives the executed tool uses and the parts the executor enqueues (parts
  of other types than the seven above), \<open>formatToolResults\<close> the text fed back.
\<close>

record 'x promptToolUse =
  enabled :: bool
  buildSystemPrompt :: "string \<Rightarrow> jsobject \<Rightarrow> string option \<Rightarrow> string"
  parseToolUse :: "string \<Rightarrow> jsobject \<Rightarrow> toolUse list"
  mcpMode :: "string option"
  newExtractor :: 'x
  processText :: "'x \<Rightarrow> string \<Rightarrow> extraction list \<times> 'x"
  executeTools :: "toolUse list \<Rightarrow> jsobject \<Rightarrow> toolUse list \<times> string list"
  formatToolResults :: "toolUse list \<Rightarrow> string"

definition isProviderTool :: "string \<times> jsval \<Rightarrow> bool" where
  "isProviderTool entry =
     (case snd entry of JObj tool \<Rightarrow> getProp tool ''type'' = JStr ''provider'' | _ \<Rightarrow> False)"

definition remainingTools :: "jsobject \<Rightarrow> jsval" where
  "remainingTools providerDefinedTools =
     (if providerDefinedTools \<noteq> [] then JObj providerDefinedTools else JUndefined)"

text \<open>
  \<open>transformParams\<close>. The hook returns a whole parameter object as its patch. \<open>tools\<close> is
  a tool set, an object; without one the parameters are returned as they are.
\<close>

definition promptTransformParams :: "'x promptToolUse \<Rightarrow> jsobject \<Rightarrow> ctx \<Rightarrow> jsobject outcome \<times> ctx" where
  "promptTransformParams config params context =
     (case (enabled config, getProp params ''tools'') of
        (True, JObj tools) \<Rightarrow>
          (let providerDefinedTools = filter isProviderTool tools;
               promptTools = filter (\<lambda>t. \<not> isProviderTool t) tools;
               c1 = (if promptTools \<noteq> [] then context\<lparr>mcpTools := Some promptTools\<rparr> else context)
           in if isRecursiveCall c1 then
                (let transformedParams =
                       spread params [(''tools'', remainingTools providerDefinedTools)]
                 in (Resolved transformedParams, c1\<lparr>originalParams := transformedParams\<rparr>))
              else
                (let userSystemPrompt = (case getProp params ''system'' of JStr s \<Rightarrow> s | _ \<Rightarrow> []);
                     systemPrompt = buildSystemPrompt config userSystemPrompt promptTools (mcpMode config);
                     transformedParams =
                       spread (spread params
                         (if systemPrompt \<noteq> [] then [(''system'', JStr systemPrompt)] else []))
                         [(''tools'', remainingTools providerDefinedTools)]
                 in (Resolved transformedParams, c1\<lparr>originalParams := transformedParams\<rparr>)))
      | _ \<Rightarrow> (Resolved params, context))"

text \<open>
  The state of one transform, the variables its closure holds: the text of the step so
  far, the held \<open>text-start\<close> part, whether it was sent, and the tag extractor.
\<close>

record 'x transformState =
  textBuffer :: string
  pendingTextStart :: "chunk option"
  hasStartedText :: bool
  tagExtractor :: 'x

definition zeroUsage :: usage where
  "zeroUsage = emptyUsage\<lparr>inputTokens := Val 0, outputTokens := Val 0, totalTokens := Val 0,
     usageReasoningTokens := Val 0, cachedInputTokens := Val 0\<rparr>"

text \<open>
  The factory that \<open>transformStream\<close> returns, called when the stream is set up: without
  prompt tools on the context the transform is the identity (\<open>None\<close>); else the
  accumulator is created unless the context has one, and the closure's variables start
  empty.
\<close>

definition newTransform :: "'x promptToolUse \<Rightarrow> ctx \<Rightarrow> 'x transformState option \<times> ctx" where
  "newTransform config c =
     (case mcpTools c of
        None \<Rightarrow> (None, c)
      | Some tools \<Rightarrow>
          (Some \<lparr>textBuffer = [], pendingTextStart = None, hasStartedText = False,
                 tagExtractor = newExtractor config\<rparr>,
           (case accumulatedUsage c of
              None \<Rightarrow> c\<lparr>accumulatedUsage := Some zeroUsage\<rparr>
            | Some u \<Rightarrow> c)))"

text \<open>
  The loop over the extraction results of one \<open>text-delta\<close>: a result that is not tag
  content and not empty is sent on as a delta, after the held \<open>text-start\<close> if that was
  not sent yet.
\<close>

fun forwardText ::
  "string \<Rightarrow> extraction list \<Rightarrow> 'x transformState \<Rightarrow> chunk list \<times> 'x transformState" where
  "forwardText i [] st = ([], st)"
| "forwardText i (r # rs) st =
     (if \<not> isTagContent r \<and> content r \<noteq> [] then
        (case (hasStartedText st, pendingTextStart st) of
           (False, Some held) \<Rightarrow>
             (case forwardText i rs (st\<lparr>hasStartedText := True, pendingTextStart := None\<rparr>) of
                (out, st') \<Rightarrow> (held # TextDelta i (content r) # out, st'))
         | _ \<Rightarrow>
             (case forwardText i rs st of (out, st') \<Rightarrow> (TextDelta i (content r) # out, st')))
      else forwardText i rs st)"

text \<open>
  The \<open>finish-step\<close> branch when tool uses were found: the step is marked, the tools run,
  the \<open>finish-step\<close> part is sent with the reason \<open>tool-calls\<close>; \<open>toolCallsStep\<close> is the
  branch up to there, the recursive call follows.
\<close>

definition toolCallsStep ::
  "'x promptToolUse \<Rightarrow> finishStep \<Rightarrow> toolUse list \<Rightarrow> jsobject \<Rightarrow> ctx \<Rightarrow> chunk list \<times> toolUse list \<times> ctx" where
  "toolCallsStep config fs validToolUses tools c =
     (case executeTools config validToolUses tools of
        (executedResults, enqueued) \<Rightarrow>
          (case sendStepFinishEvent fs (c\<lparr>hasExecutedToolsInCurrentStep := True\<rparr>) ''tool-calls'' of
             (sent, c') \<Rightarrow> (map Other enqueued @ sent, executedResults, c')))"

definition validToolUses :: "'x promptToolUse \<Rightarrow> string \<Rightarrow> ctx \<Rightarrow> toolUse list" where
  "validToolUses config text c =
     (case mcpTools c of
        Some tools \<Rightarrow>
          if tools \<noteq> [] \<and> \<not> hasExecutedToolsInCurrentStep c
          then filter (\<lambda>t. status t = Pending) (parseToolUse config text tools)
          else []
      | None \<Rightarrow> [])"

text \<open>
  \<open>transform\<close>, the handler of one incoming part. It gives the parts enqueued, the error
  thrown if any, and the closure's variables and the context after the call.
\<close>

definition transformChunk ::
  "'x promptToolUse \<Rightarrow> recursion \<Rightarrow> chunk \<Rightarrow> 'x transformState \<Rightarrow> ctx \<Rightarrow>
   (chunk list \<times> thrown option \<times> 'x transformState \<times> ctx) option" where
  "transformChunk config recur part st c =
     (case part of
        TextStart i \<Rightarrow> Some ([], None, st\<lparr>pendingTextStart := Some part\<rparr>, c)
      | TextDelta i text \<Rightarrow>
          (case processText config (tagExtractor st) text of
             (extractionResults, extractor) \<Rightarrow>
               (case forwardText i extractionResults
                       (st\<lparr>textBuffer := textBuffer st @ text, tagExtractor := extractor\<rparr>) of
                  (out, st') \<Rightarrow> Some (out, None, st', c)))
      | TextEnd i \<Rightarrow> Some (if hasStartedText st then [part] else [], None, st, c)
      | FinishStep fs \<Rightarrow>
          (if validToolUses config (textBuffer st) c \<noteq> [] then
             (let tools = (case mcpTools c of Some ts \<Rightarrow> ts | None \<Rightarrow> []) in
              case toolCallsStep config fs (validToolUses config (textBuffer st) c) tools c of
                (sent, executedResults, c1) \<Rightarrow>
                  (case handleRecursiveCall recur
                          (buildRecursiveParams c1 (textBuffer st)
                             (formatToolResults config executedResults) tools) c1 of
                     None \<Rightarrow> None
                   | Some (piped, err, c2) \<Rightarrow> Some (sent @ piped, err, st, c2)))
           else Some ([part], None, st\<lparr>textBuffer := []\<rparr>, accumulateStep fs c))
      | Finish reason totalUsage \<Rightarrow> Some ([Finish reason (accumulatedUsage c)], None, st, c)
      | _ \<Rightarrow> Some ([part], None, st, c))"

text \<open>The plugin itself. \<open>transformStream\<close> has no effect of its own: it returns the factory.\<close>

definition promptToolUsePlugin :: "'x promptToolUse \<Rightarrow> ('r, unit) plugin" where
  "promptToolUsePlugin config =
     \<lparr>name = ''built-in:prompt-tool-use'', enforce = None, resolveModel = None,
      configureContext = None, transformParams = Some (promptTransformParams config),
      transformResult = None, onRequestStart = None, onRequestEnd = None, onError = None,
      transformStream = Some (\<lambda>params c. ())\<rparr>"

section \<open>The tag extractor\<close>

text \<open>
  Modelled from the spec: the class \<open>TagExtractor\<close> (\<open>tagExtraction.ts\<close>), which the
  plugin imports and whose file is not among the sources. Sections 3 and 4.5 of the
  specification give its state, a buffer of text not yet consumed and whether the
  extractor is inside a tag, and its algorithm: the fragment is appended to the buffer;
  the buffer is scanned for the tag expected next, the opening tag outside and the
  closing tag inside; everything before the tag is emitted as a fragment marked with
  the current state, the state is flipped and the tag consumed; when no further tag is
  found, the text that cannot be the beginning of the tag is emitted, and the rest,
  which may be a part of a tag that straddles the boundary of the fragment, is kept for
  the next call. At teardown what is still in the buffer is flushed. The separator is
  inserted between merged \<open>outside\<close> segments: when a tag block has been taken out, the
  outside text that comes next is emitted with the separator before it. For that the
  state also holds whether a closing tag was consumed with no outside text emitted
  since; the specification names the two other fields only.
\<close>

record tagConfig =
  openingTag :: string
  closingTag :: string
  separator :: string

definition TOOL_USE_TAG_CONFIG :: tagConfig where
  "TOOL_USE_TAG_CONFIG =
     \<lparr>openingTag = ''<tool_use>'', closingTag = ''</tool_use>'', separator = [CHR 0x0A]\<rparr>"

record tagState =
  buffer :: string
  insideTag :: bool
  separatorDue :: bool

definition newTagState :: tagState where
  "newTagState = \<lparr>buffer = [], insideTag = False, separatorDue = False\<rparr>"

text \<open>
  The scan: the text is split at the first place where the tag begins, whole or as far
  as the text goes.
\<close>

fun scan :: "string \<Rightarrow> string \<Rightarrow> string \<times> string" where
  "scan tag [] = ([], [])"
| "scan tag (x # xs) =
     (if prefix tag (x # xs) \<or> prefix (x # xs) tag then ([], x # xs)
      else (case scan tag xs of (before, rest) \<Rightarrow> (x # before, rest)))"

definition expectedTag :: "tagConfig \<Rightarrow> bool \<Rightarrow> string" where
  "expectedTag config inside = (if inside then closingTag config else openingTag config)"

text \<open>
  The fragment emitted for the text before a tag boundary, and whether the separator is
  still due after it: outside text that is not empty takes the separator that is due.
\<close>

definition fragmentOf :: "tagConfig \<Rightarrow> bool \<Rightarrow> bool \<Rightarrow> string \<Rightarrow> extraction" where
  "fragmentOf config inside due before =
     \<lparr>content = (if \<not> inside \<and> due \<and> before \<noteq> [] then separator config @ before else before),
      isTagContent = inside\<rparr>"

definition dueAfter :: "bool \<Rightarrow> bool \<Rightarrow> string \<Rightarrow> bool" where
  "dueAfter inside due before = (if inside then due else due \<and> before = [])"

function extractFrom :: "tagConfig \<Rightarrow> bool \<Rightarrow> bool \<Rightarrow> string \<Rightarrow> extraction list \<times> tagState" where
  "extractFrom config inside due text =
     (case scan (expectedTag config inside) text of
        (before, rest) \<Rightarrow>
          if expectedTag config inside \<noteq> [] \<and> prefix (expectedTag config inside) rest then
            (case extractFrom config (\<not> inside) (inside \<or> dueAfter inside due before)
                    (drop (length (expectedTag config inside)) rest) of
               (results, st) \<Rightarrow> (fragmentOf config inside due before # results, st))
          else ([fragmentOf config inside due before],
                \<lparr>buffer = rest, insideTag = inside, separatorDue = dueAfter inside due before\<rparr>))"
  by pat_completeness auto
termination
proof (relation "measure (\<lambda>(config, inside, due, input). length input)", goal_cases)
  case 1
  show ?case by simp
next
  case (2 config inside due input before rest)
  have "length (snd (scan tag xs)) \<le> length xs" for tag xs :: string
    by (induction xs) (auto split: prod.splits)
  from this [of "expectedTag config inside" input] 2(1) have "length rest \<le> length input"
    by (metis snd_conv)
  moreover have "0 < length (expectedTag config inside)"
    "length (expectedTag config inside) \<le> length rest"
    using 2(2) by (auto simp: prefix_def)
  ultimately show ?case by (cases "expectedTag config inside") simp_all
qed

declare extractFrom.simps [simp del]

definition tagProcessText :: "tagConfig \<Rightarrow> tagState \<Rightarrow> string \<Rightarrow> extraction list \<times> tagState" where
  "tagProcessText config st fragment =
     extractFrom config (insideTag st) (separatorDue st) (buffer st @ fragment)"

definition tagFlush :: "tagConfig \<Rightarrow> tagState \<Rightarrow> extraction list" where
  "tagFlush config st =
     (if buffer st \<noteq> [] then [fragmentOf config (insideTag st) (separatorDue st) (buffer st)] else [])"

text \<open>A stream of fragments, from a new extractor to its teardown.\<close>

fun feed :: "tagConfig \<Rightarrow> tagState \<Rightarrow> string list \<Rightarrow> extraction list \<times> tagState" where
  "feed config st [] = ([], st)"
| "feed config st (fragment # fragments) =
     (case tagProcessText config st fragment of
        (results, st') \<Rightarrow>
          (case feed config st' fragments of (later, st'') \<Rightarrow> (results @ later, st'')))"

definition extractAll :: "tagConfig \<Rightarrow> string list \<Rightarrow> extraction list" where
  "extractAll config fragments =
     (case feed config newTagState fragments of (results, st) \<Rightarrow> results @ tagFlush config st)"

definition outsideText :: "extraction list \<Rightarrow> string" where
  "outsideText results = concat (map content (filter (\<lambda>r. \<not> isTagContent r) results))"

definition emittedText :: "extraction list \<Rightarrow> string" where
  "emittedText results = concat (map content results)"
section \<open>A streaming request with the prompt-tool-use plugin\<close>

text \<open>
  The executor of a streaming request is \<open>streamText\<close> of the AI SDK: its result holds
  \<open>fullStream\<close>, the parts of the provider piped through the transforms the engine
  collected. The provider is a parameter: the parts it yields for a model and its
  parameters. The request is made with the prompt-tool-use plugin and other plugins;
  the other plugins are taken to have no stream transform of their own.
\<close>

type_synonym provider = "lmodel \<Rightarrow> jsobject \<Rightarrow> stream outcome"

definition streamExecutor :: "provider \<Rightarrow> (stream, unit) executor" where
  "streamExecutor provider m params transforms = provider m params"

text \<open>
  The reading of a stream through the transform: every part that is read is handed to
  \<open>transform\<close>, and what that enqueues is what the reader gets. An error thrown by
  \<open>transform\<close> ends the stream with that error. The stream is pulled by its reader:
  \<open>pipeRecursiveStream\<close> reads no further once it has seen a \<open>finish\<close> part (\<open>stop\<close>), the
  consumer of the request reads to the end.
\<close>

fun readThrough ::
  "bool \<Rightarrow> 'x promptToolUse \<Rightarrow> recursion \<Rightarrow> chunk list \<Rightarrow> thrown option \<Rightarrow>
   'x transformState \<Rightarrow> ctx \<Rightarrow> (chunk list \<times> thrown option \<times> ctx) option" where
  "readThrough stop config recur [] err st c = Some ([], err, c)"
| "readThrough stop config recur (part # parts) err st c =
     (case transformChunk config recur part st c of
        None \<Rightarrow> None
      | Some (out, Some e, st', c') \<Rightarrow> Some (out, Some e, c')
      | Some (out, None, st', c') \<Rightarrow>
          if stop \<and> list_ex isFinish out then Some (out, None, c')
          else (case readThrough stop config recur parts err st' c' of
                  None \<Rightarrow> None
                | Some (later, e, c'') \<Rightarrow> Some (out @ later, e, c'')))"

text \<open>
  The stream of a result as its reader sees it. The transform is created for the
  result's stream from the context the method leaves: the identity without prompt tools.
\<close>

definition readResult ::
  "bool \<Rightarrow> 'x promptToolUse \<Rightarrow> recursion \<Rightarrow> stream \<Rightarrow> ctx \<Rightarrow> (stream \<times> ctx) option" where
  "readResult stop config recur raw c =
     (case newTransform config c of
        (None, c') \<Rightarrow> Some (raw, c')
      | (Some st, c') \<Rightarrow>
          (case readThrough stop config recur (fst raw) (snd raw) st c' of
             None \<Rightarrow> None
           | Some (out, e, c'') \<Rightarrow> Some ((out, e), c'')))"

text \<open>
  \<open>context.recursiveCall(recursiveParams)\<close> followed by the reading of the stream it
  returns, as \<open>handleRecursiveCall\<close> does it. The nested stream runs through a transform
  of its own, whose recursive calls are of the same kind; nothing bounds their nesting
  (the closure's depth counter is back at its old value when the method has returned,
  before the nested stream is read), so the model counts it: with no level left the
  reading has not ended, \<open>None\<close>.
\<close>

primrec reader ::
  "nat \<Rightarrow> 'x promptToolUse \<Rightarrow> (stream, unit) plugin list \<Rightarrow> string \<Rightarrow> provider \<Rightarrow> recursion" where
  "reader 0 config others pid provider newParams c = None"
| "reader (Suc n) config others pid provider newParams c =
     (case callRecursive StreamText (promptToolUsePlugin config # others) pid
             (streamExecutor provider) newParams c of
        (Inl e, c', l) \<Rightarrow> Some (Inl e, c')
      | (Inr None, c', l) \<Rightarrow> Some (Inr None, c')
      | (Inr (Some raw), c', l) \<Rightarrow>
          (case readResult True config (reader n config others pid provider) raw c' of
             None \<Rightarrow> None
           | Some (s, c'') \<Rightarrow> Some (Inr (Some s), c'')))"

text \<open>
  A whole request: \<open>executeStreamWithPlugins\<close> on a new context, and the result's stream
  read to its end by the consumer.
\<close>

definition streamRequest ::
  "nat \<Rightarrow> 'x promptToolUse \<Rightarrow> (stream, unit) plugin list \<Rightarrow> string \<Rightarrow> provider \<Rightarrow>
   jsobject \<Rightarrow> int \<Rightarrow> string \<Rightarrow> ((thrown + stream) \<times> ctx) option" where
  "streamRequest fuel config others pid provider params now stamp =
     (case executeStreamWithPlugins (promptToolUsePlugin config # others) pid
             (streamExecutor provider) params None now stamp of
        (Inl e, c, l) \<Rightarrow> Some (Inl e, c)
      | (Inr raw, c, l) \<Rightarrow>
          (case readResult False config (reader fuel config others pid provider) raw c of
             None \<Rightarrow> None
           | Some (s, c') \<Rightarrow> Some (Inr s, c')))"

text \<open>The usage records of the \<open>finish-step\<close> parts of a stream, in order.\<close>

fun stepUsages :: "chunk list \<Rightarrow> usage list" where
  "stepUsages [] = []"
| "stepUsages (FinishStep fs # parts) =
     (case stepUsage fs of Some u \<Rightarrow> u # stepUsages parts | None \<Rightarrow> stepUsages parts)"
| "stepUsages (part # parts) = stepUsages parts"

text \<open>
  The accumulator after the \<open>finish-step\<close> parts of a stream: \<open>accumulateUsage\<close> called
  with the usage of each of them in turn.
\<close>

definition usageAfter :: "usage option \<Rightarrow> chunk list \<Rightarrow> usage option" where
  "usageAfter acc parts = fst (accumulateAll acc (map Some (stepUsages parts)))"

text \<open>
  Every \<open>finish\<close> part of a stream carries, as its total usage, the accumulator \<open>acc\<close>
  after the \<open>finish-step\<close> parts that come before it.
\<close>

fun finishesCarry :: "usage option \<Rightarrow> chunk list \<Rightarrow> bool" where
  "finishesCarry acc [] = True"
| "finishesCarry acc (Finish reason totalUsage # parts) = (totalUsage = acc \<and> finishesCarry acc parts)"
| "finishesCarry acc (part # parts) = finishesCarry (usageAfter acc [part]) parts"

text \<open>The token counts of a usage record, \<open>u.k || 0\<close> for each of them.\<close>

datatype tokenCount =
    InputTokens | OutputTokens | TotalTokens
  | NoCacheTokens | CacheReadTokens | CacheWriteTokens
  | TextTokens | ReasoningTokens

fun tokenCountOf :: "tokenCount \<Rightarrow> usage \<Rightarrow> int" where
  "tokenCountOf InputTokens u = or0 (inputTokens u)"
| "tokenCountOf OutputTokens u = or0 (outputTokens u)"
| "tokenCountOf TotalTokens u = or0 (totalTokens u)"
| "tokenCountOf NoCacheTokens u =
     (case inputTokenDetails u of Val d \<Rightarrow> or0 (noCacheTokens d) | _ \<Rightarrow> 0)"
| "tokenCountOf CacheReadTokens u =
     (case inputTokenDetails u of Val d \<Rightarrow> or0 (cacheReadTokens d) | _ \<Rightarrow> 0)"
| "tokenCountOf CacheWriteTokens u =
     (case inputTokenDetails u of Val d \<Rightarrow> or0 (cacheWriteTokens d) | _ \<Rightarrow> 0)"
| "tokenCountOf TextTokens u =
     (case outputTokenDetails u of Val d \<Rightarrow> or0 (textTokens d) | _ \<Rightarrow> 0)"
| "tokenCountOf ReasoningTokens u =
     (case outputTokenDetails u of Val d \<Rightarrow> or0 (reasoningTokens d) | _ \<Rightarrow> 0)"

definition topLevelCount :: "tokenCount \<Rightarrow> bool" where
  "topLevelCount k \<longleftrightarrow> k = InputTokens \<or> k = OutputTokens \<or> k = TotalTokens"

text \<open>
  The held part of a transform is a \<open>text-start\<close> part, if any; and a recursion, seen
  from its caller, that leaves on a context with prompt tools and an accumulator the
  accumulator after the parts that are piped on.
\<close>

definition holdsTextStart :: "'x transformState \<Rightarrow> bool" where
  "holdsTextStart st \<longleftrightarrow>
     (case pendingTextStart st of Some (TextStart i) \<Rightarrow> True | Some part \<Rightarrow> False | None \<Rightarrow> True)"

definition accumulating :: "ctx \<Rightarrow> bool" where
  "accumulating c \<longleftrightarrow> accumulatedUsage c \<noteq> None \<and> mcpTools c \<noteq> None"

definition pipedParts :: "thrown + stream option \<Rightarrow> chunk list" where
  "pipedParts r =
     (case r of Inr (Some (parts, err)) \<Rightarrow> fst (pipeRecursiveStream parts err) | _ \<Rightarrow> [])"

definition recursionAccumulates :: "recursion \<Rightarrow> bool" where
  "recursionAccumulates recur \<longleftrightarrow>
     (\<forall>newParams c r c'. accumulating c \<longrightarrow> recur newParams c = Some (r, c') \<longrightarrow>
        accumulating c' \<and> accumulatedUsage c' = usageAfter (accumulatedUsage c) (pipedParts r))"

text \<open>
  A predicate on the context that every hook of the plugins keeps; further down, the
  plugins whose hooks write neither \<open>accumulatedUsage\<close> nor \<open>mcpTools\<close>.
\<close>

definition hooksKeep :: "(ctx \<Rightarrow> bool) \<Rightarrow> ('r, 't) plugin list \<Rightarrow> bool" where
  "hooksKeep keeps plugins \<longleftrightarrow>
     (\<forall>p \<in> set plugins. \<forall>c. keeps c \<longrightarrow>
        (\<forall>h. configureContext p = Some h \<longrightarrow> keeps (snd (h c))) \<and>
        (\<forall>h. onRequestStart p = Some h \<longrightarrow> keeps (snd (h c))) \<and>
        (\<forall>h mid. resolveModel p = Some h \<longrightarrow> keeps (snd (h mid c))) \<and>
        (\<forall>h params. transformParams p = Some h \<longrightarrow> keeps (snd (h params c))) \<and>
        (\<forall>h r. transformResult p = Some h \<longrightarrow> keeps (snd (h r c))) \<and>
        (\<forall>h r. onRequestEnd p = Some h \<longrightarrow> keeps (snd (h c r))) \<and>
        (\<forall>h e. onError p = Some h \<longrightarrow> keeps (snd (h e c))))"

text \<open>A step of the engine that keeps a predicate on the context.\<close>

definition stepKeeps :: "(ctx \<Rightarrow> bool) \<Rightarrow> ('a, 'r) step \<Rightarrow> bool" where
  "stepKeeps keeps s \<longleftrightarrow> (\<forall>c r c' l. keeps c \<longrightarrow> s c = (r, c', l) \<longrightarrow> keeps c')"

text \<open>Plugins whose hooks all leave a part of the context as it is.\<close>

definition hooksLeave :: "(ctx \<Rightarrow> 'a) \<Rightarrow> ('r, 't) plugin list \<Rightarrow> bool" where
  "hooksLeave field plugins \<longleftrightarrow>
     (\<forall>p \<in> set plugins. \<forall>c.
        (\<forall>h. configureContext p = Some h \<longrightarrow> field (snd (h c)) = field c) \<and>
        (\<forall>h. onRequestStart p = Some h \<longrightarrow> field (snd (h c)) = field c) \<and>
        (\<forall>h mid. resolveModel p = Some h \<longrightarrow> field (snd (h mid c)) = field c) \<and>
        (\<forall>h params. transformParams p = Some h \<longrightarrow> field (snd (h params c)) = field c) \<and>
        (\<forall>h r. transformResult p = Some h \<longrightarrow> field (snd (h r c)) = field c) \<and>
        (\<forall>h r. onRequestEnd p = Some h \<longrightarrow> field (snd (h c r)) = field c) \<and>
        (\<forall>h e. onError p = Some h \<longrightarrow> field (snd (h e c)) = field c))"

definition leavesUsageAlone :: "('r, 't) plugin list \<Rightarrow> bool" where
  "leavesUsageAlone plugins \<longleftrightarrow> hooksLeave (\<lambda>c. (accumulatedUsage c, mcpTools c)) plugins"
section \<open>Plugins and requests used as examples\<close>

definition emptyPlugin :: "string \<Rightarrow> ('r, 't) plugin" where
  "emptyPlugin n = \<lparr>name = n, enforce = None, resolveModel = None, configureContext = None,
     transformParams = None, transformResult = None, onRequestStart = None,
     onRequestEnd = None, onError = None, transformStream = None\<rparr>"

text \<open>A plugin that registers a middleware, as the tests of the engine do.\<close>

definition pushMiddleware :: "string \<Rightarrow> ctx \<Rightarrow> unit outcome \<times> ctx" where
  "pushMiddleware mw c =
     (Resolved (), c\<lparr>middlewares := Some ((case middlewares c of Some ms \<Rightarrow> ms | None \<Rightarrow> []) @ [mw])\<rparr>)"

definition middlewareWriter :: "string \<Rightarrow> string \<Rightarrow> (string, unit) plugin" where
  "middlewareWriter n mw = (emptyPlugin n)\<lparr>configureContext := Some (pushMiddleware mw)\<rparr>"

definition resolver :: "('r, 't) plugin" where
  "resolver = (emptyPlugin ''resolver'')\<lparr>
     enforce := Some Post,
     resolveModel := Some (\<lambda>mid c. (Resolved (Some (Model mid)), c))\<rparr>"

definition answering :: "string \<Rightarrow> (string, unit) executor" where
  "answering text m params transforms = Resolved text"

definition failing :: "thrown \<Rightarrow> (string, unit) executor" where
  "failing e m params transforms = Rejected e"

definition textRequest :: jsobject where
  "textRequest = [(''model'', JStr ''gpt-4''), (''messages'', JArr [])]"

definition imageRequest :: jsobject where
  "imageRequest = [(''model'', JModel (Model ''dall-e-3'')), (''prompt'', JStr ''a cat'')]"

definition twoWriters :: "(string, unit) plugin list" where
  "twoWriters = [resolver, middlewareWriter ''plugin-2'' ''second'',
     (middlewareWriter ''plugin-1'' ''first'')\<lparr>enforce := Some Pre\<rparr>]"

definition textContext :: ctx where
  "textContext = createContext ''openai'' (JStr ''gpt-4'') textRequest 0 ''k3j9''"

definition imageContext :: ctx where
  "imageContext = createContext ''openai'' (JModel (Model ''dall-e-3'')) imageRequest 0 ''k3j9''"

text \<open>Plugins that watch a request: one whose hooks complete, one whose \<open>onError\<close> rejects.\<close>

definition observer :: "string \<Rightarrow> (string, unit) plugin" where
  "observer n = (emptyPlugin n)\<lparr>
     onRequestEnd := Some (\<lambda>c r. (Resolved (), c)),
     onError := Some (\<lambda>e c. (Resolved (), c))\<rparr>"

definition brokenObserver :: "string \<Rightarrow> thrown \<Rightarrow> (string, unit) plugin" where
  "brokenObserver n x = (emptyPlugin n)\<lparr>onError := Some (\<lambda>e c. (Rejected x, c))\<rparr>"

text \<open>A plugin whose \<open>onError\<close> promise rejects with \<open>x\<close> after it has waited for \<open>k\<close>.\<close>

definition slowBrokenObserver :: "string \<Rightarrow> nat \<Rightarrow> thrown \<Rightarrow> (string, unit) plugin" where
  "slowBrokenObserver n k x = (emptyPlugin n)\<lparr>onError := Some (\<lambda>e c. (RejectedLater k x, c))\<rparr>"

definition patching :: "string \<Rightarrow> jsobject \<Rightarrow> (string, unit) plugin" where
  "patching n patch = (emptyPlugin n)\<lparr>transformParams := Some (\<lambda>params c. (Resolved patch, c))\<rparr>"

definition optionsRequest :: jsobject where
  "optionsRequest =
     [(''model'', JStr ''gpt-4''),
      (''providerOptions'', JObj [(''openai'', JObj [(''store'', JBool False)])])]"

definition googleOptions :: jsobject where
  "googleOptions = [(''providerOptions'', JObj [(''google'', JObj [(''safe'', JBool True)])])]"


text \<open>
  An executor that answers with the prompt it is given, and the context of a request as
  the text method leaves it; then the same context after a recursive call that set the
  temperature.
\<close>

definition echoing :: "(string, unit) executor" where
  "echoing m params transforms =
     Resolved (case getProp params ''prompt'' of JStr s \<Rightarrow> s | _ \<Rightarrow> ''no prompt'')"

definition enteredContext :: ctx where
  "enteredContext =
     fst (snd (executeWithPlugins [resolver] ''openai'' echoing textRequest None 0 ''k3j9''))"

definition afterFirstCall :: ctx where
  "afterFirstCall =
     fst (snd (callRecursive GenerateText [resolver] ''openai'' echoing
                 [(''temperature'', JNum 1)] enteredContext))"
text \<open>
  A configuration of the prompt-tool-use plugin: a system prompt builder that appends
  the names of the tools, a parser that finds one call of \<open>search\<close> in a text that holds
  the opening tag, an executor that enqueues a call and a result part for each tool use.
\<close>

definition catalogue :: "string \<Rightarrow> jsobject \<Rightarrow> string option \<Rightarrow> string" where
  "catalogue userSystemPrompt tools mode = userSystemPrompt @ '' Tools: '' @ concat (map fst tools)"

definition searchCall :: toolUse where
  "searchCall = \<lparr>toolId = ''search-0'', toolName = ''search'', arguments = JObj [], status = Pending\<rparr>"

definition findsSearch :: "string \<Rightarrow> jsobject \<Rightarrow> toolUse list" where
  "findsSearch text tools = (if sublist ''<tool_use>'' text then [searchCall] else [])"

definition runsTools :: "toolUse list \<Rightarrow> jsobject \<Rightarrow> toolUse list \<times> string list" where
  "runsTools uses tools =
     (map (\<lambda>u. u\<lparr>status := Executed\<rparr>) uses, concat (map (\<lambda>u. [''tool-call'', ''tool-result'']) uses))"

definition promptConfig :: "tagState promptToolUse" where
  "promptConfig =
     \<lparr>enabled = True, buildSystemPrompt = catalogue, parseToolUse = findsSearch, mcpMode = None,
      newExtractor = newTagState, processText = tagProcessText TOOL_USE_TAG_CONFIG,
      executeTools = runsTools,
      formatToolResults = (\<lambda>uses. ''results of '' @ concat (map toolName uses))\<rparr>"

definition searchTools :: jsobject where
  "searchTools = [(''search'', JObj [(''description'', JStr ''web search'')]),
                  (''web'', JObj [(''type'', JStr ''provider'')])]"

definition toolRequest :: jsobject where
  "toolRequest = [(''model'', JStr ''gpt-4''), (''system'', JStr ''Be brief.''),
                  (''messages'', JArr []), (''tools'', JObj searchTools)]"

definition toolContext :: ctx where
  "toolContext = createContext ''openai'' (JStr ''gpt-4'') toolRequest 0 ''k3j9''"

text \<open>
  The context of that request inside its first recursive call: after the plugin's
  \<open>transformParams\<close> at the top level, with the depth and the flag the closure sets.
\<close>

definition recursiveContext :: ctx where
  "recursiveContext =
     (snd (promptTransformParams promptConfig toolRequest toolContext))
       \<lparr>recursiveDepth := 1, isRecursiveCall := True\<rparr>"

definition recursiveRequest :: jsobject where
  "recursiveRequest =
     spread toolRequest
       (buildRecursiveParams recursiveContext ''<tool_use>search</tool_use>'' ''results of search''
          [(''search'', JObj [(''description'', JStr ''web search'')])])"

text \<open>
  A provider that asks for the tool once: with no user message among the messages it
  answers with a call of \<open>search\<close>, with the tool results there it answers in plain text.
\<close>

definition stepOf :: "int \<Rightarrow> int \<Rightarrow> finishStep" where
  "stepOf i out = \<lparr>finishReason = ''stop'', rawFinishReason = JStr ''end_turn'', response = JNull,
     stepUsage = Some (counts i out (i + out)), providerMetadata = JUndefined\<rparr>"

definition askingParts :: "chunk list" where
  "askingParts = [Start, StartStep, TextStart ''t1'', TextDelta ''t1'' ''Let me look. <tool'',
     TextDelta ''t1'' ''_use>search</tool_use>'', TextEnd ''t1'', FinishStep (stepOf 10 5),
     Finish ''stop'' (Some (counts 10 5 15))]"

definition answeringParts :: "chunk list" where
  "answeringParts = [Start, StartStep, TextStart ''t2'', TextDelta ''t2'' ''Found it.'',
     TextEnd ''t2'', FinishStep (stepOf 20 3), Finish ''stop'' (Some (counts 20 3 23))]"

definition searching :: provider where
  "searching m params =
     (case getProp params ''messages'' of
        JArr [] \<Rightarrow> Resolved (askingParts, None)
      | _ \<Rightarrow> Resolved (answeringParts, None))"

text \<open>
  The first step of that request at its \<open>finish-step\<close> part: the context as the method
  and the set-up of the transform leave it, and the variables of the transform after the
  text of the step.
\<close>

definition streamContext :: ctx where
  "streamContext =
     snd (newTransform promptConfig
       (fst (snd (executeStreamWithPlugins [promptToolUsePlugin promptConfig, resolver] ''openai''
          (streamExecutor searching) toolRequest None 0 ''k3j9''))))"

definition toolStep :: "tagState transformState" where
  "toolStep = \<lparr>textBuffer = ''Let me look. <tool_use>search</tool_use>'', pendingTextStart = None,
     hasStartedText = True, tagExtractor = newTagState\<rparr>"

text \<open>
  A stream of two steps: a step of plain text, then a step whose text is a tool use and
  nothing else.
\<close>

definition newTransformState :: "tagState transformState" where
  "newTransformState = \<lparr>textBuffer = [], pendingTextStart = None, hasStartedText = False,
     tagExtractor = newTagState\<rparr>"

definition twoSteps :: "chunk list" where
  "twoSteps = [Start, StartStep, TextStart ''a'', TextDelta ''a'' ''Hello'', TextEnd ''a'',
     FinishStep (stepOf 4 1), StartStep, TextStart ''b'',
     TextDelta ''b'' ''<tool_use>search</tool_use>'', TextEnd ''b'', FinishStep (stepOf 6 9),
     Finish ''stop'' (Some (counts 6 9 15))]"

text \<open>What the consumer of that request gets before its \<open>finish\<close> part, and the total.\<close>

definition searchedParts :: "chunk list" where
  "searchedParts = [Start, StartStep, TextStart ''t1'', TextDelta ''t1'' ''Let me look. '',
     TextEnd ''t1'', Other ''tool-call'', Other ''tool-result'',
     FinishStep \<lparr>finishReason = ''tool-calls'', rawFinishReason = JUndefined, response = JNull,
       stepUsage = Some (counts 10 5 15), providerMetadata = JUndefined\<rparr>,
     StartStep, TextStart ''t2'', TextDelta ''t2'' ''Found it.'', TextEnd ''t2'',
     FinishStep (stepOf 20 3)]"

definition searchedUsage :: usage where
  "searchedUsage = (counts 30 8 38)\<lparr>usageReasoningTokens := Val 0, cachedInputTokens := Val 0\<rparr>"
section \<open>Definitions unfolded when a concrete run is evaluated\<close>

lemmas example_defs = twoWriters_def resolver_def middlewareWriter_def emptyPlugin_def
  pushMiddleware_def answering_def failing_def textRequest_def imageRequest_def
  textContext_def imageContext_def observer_def brokenObserver_def patching_def
  optionsRequest_def googleOptions_def slowBrokenObserver_def
lemmas engine_defs = lifecycle_def executeWithPlugins_def executeImageWithPlugins_def
  executeStreamWithPlugins_def catchError_def requestBody_def andThen_def resolveStep_def
  applyMiddlewares_def wrapLanguageModel_def callExecutor_def executeParallel_def parallelCall_def
  sortPlugins_def createContext_def getProp_def spread_def collectStreamTransforms_def
  errorArgument_def
lemmas prompt_example_defs = catalogue_def searchCall_def findsSearch_def runsTools_def
  promptConfig_def searchTools_def toolRequest_def toolContext_def recursiveContext_def recursiveRequest_def

section \<open>Lemmas on object spread\<close>

lemma map_of_spread_one: "map_of (spread a [(k, v)]) = (map_of a)(k \<mapsto> v)"
  by (simp add: spread_def update_conv')

lemma map_of_spread_two: "map_of (spread a [(k, v), (k', v')]) = (map_of a)(k \<mapsto> v, k' \<mapsto> v')"
  by (simp add: spread_def update_conv')

lemma map_of_spread_present:
  "distinct (map fst b) \<Longrightarrow> map_of b k = Some v \<Longrightarrow> map_of (spread a b) k = Some v"
proof (induction b arbitrary: a)
  case Nil
  then show ?case by simp
next
  case (Cons x b)
  obtain k' v' where x: "x = (k', v')" by (cases x)
  show ?case
  proof (cases "k' = k")
    case True
    then have "map_of b k = None" using Cons.prems(1) x
      by (simp add: map_of_eq_None_iff)
    have keep: "k \<notin> fst ` set b \<Longrightarrow> map_of (spread a' b) k = map_of a' k" for a'
      by (induction b arbitrary: a') (auto simp: spread_def update_conv')
    show ?thesis
      using Cons.prems x True keep [of "AList.update k v' a"]
      by (simp add: spread_def update_conv')
  next
    case False
    then show ?thesis
      using Cons.prems x Cons.IH [of "AList.update k' v' a"] by (simp add: spread_def)
  qed
qed

lemma distinct_spread: "distinct (map fst a) \<Longrightarrow> distinct (map fst (spread a b))"
  by (induction b arbitrary: a) (auto simp: spread_def distinct_update)

lemma map_of_spread_absent:
  "k \<notin> fst ` set b \<Longrightarrow> map_of (spread a b) k = map_of a k"
  by (induction b arbitrary: a) (auto simp: spread_def update_conv')

section \<open>Lemmas on the manager and the engine\<close>

lemma andThenE:
  assumes "andThen m f c = (r, c'', l)"
  obtains (failed) e where "m c = (Inl e, c'', l)" "r = Inl e"
  | (passed) a c' l1 l2 where "m c = (Inr a, c', l1)" "f a c' = (r, c'', l2)" "l = l1 @ l2"
  using assms by (auto simp: andThen_def split: prod.splits sum.splits)

lemma noExecutorCall_simps [simp]:
  "noExecutorCall []"
  "noExecutorCall (a @ b) \<longleftrightarrow> noExecutorCall a \<and> noExecutorCall b"
  "noExecutorCall (ConfigureContextCall n # l) \<longleftrightarrow> noExecutorCall l"
  "noExecutorCall (OnRequestStartCall n # l) \<longleftrightarrow> noExecutorCall l"
  "noExecutorCall (ResolveModelCall n i # l) \<longleftrightarrow> noExecutorCall l"
  "noExecutorCall (TransformParamsCall n x y # l) \<longleftrightarrow> noExecutorCall l"
  "noExecutorCall (TransformResultCall n # l) \<longleftrightarrow> noExecutorCall l"
  "noExecutorCall (OnRequestEndCall n r # l) \<longleftrightarrow> noExecutorCall l"
  "noExecutorCall (OnErrorCall n e # l) \<longleftrightarrow> noExecutorCall l"
  "\<not> noExecutorCall (ExecutorCall m p # l)"
  by (auto simp: noExecutorCall_def)

lemma executeConfigureContext_noExecutorCall:
  "executeConfigureContext ps c = (r, c', l) \<Longrightarrow> noExecutorCall l"
  by (induction ps arbitrary: c r c' l)
     (auto split: option.splits prod.splits sum.splits)

lemma executeFirst_noExecutorCall:
  "executeFirst ps a c = (r, c', l) \<Longrightarrow> noExecutorCall l"
  by (induction ps arbitrary: c r c' l)
     (auto split: option.splits prod.splits sum.splits)

lemma executeTransformParams_noExecutorCall:
  "executeTransformParams ps a c = (r, c', l) \<Longrightarrow> noExecutorCall l"
  by (induction ps arbitrary: a c r c' l)
     (auto split: option.splits prod.splits sum.splits)

lemma executeTransformResult_noExecutorCall:
  "executeTransformResult ps a c = (r, c', l) \<Longrightarrow> noExecutorCall l"
  by (induction ps arbitrary: a c r c' l)
     (auto split: option.splits prod.splits sum.splits)

lemma parallelCall_event:
  "parallelCall h p res err = Some (call, ev) \<Longrightarrow> noExecutorCall (ev # l) = noExecutorCall l"
  by (auto simp: parallelCall_def split: parallelHook.splits option.splits)

lemma invokeHooks_noExecutorCall:
  "invokeHooks h ps res err c = (r, c', l) \<Longrightarrow> noExecutorCall l"
proof (induction ps arbitrary: c r c' l)
  case Nil
  then show ?case by simp
next
  case (Cons p ps)
  show ?case
  proof (cases "parallelCall h p res err")
    case None
    with Cons show ?thesis by simp
  next
    case (Some a)
    obtain call ev where a: "a = (call, ev)" by (cases a)
    obtain out c1 where call: "call c = (out, c1)" by (cases "call c")
    obtain r2 c2 l2 where rest: "invokeHooks h ps res err c1 = (r2, c2, l2)"
      by (metis prod_cases3)
    have l2: "noExecutorCall l2" using Cons.IH rest by blast
    have "l = [ev] \<or> l = ev # l2"
      using Cons.prems Some a call rest
      by (cases out; cases r2) (auto split: list.splits)
    moreover have "noExecutorCall (ev # l2) = noExecutorCall l2" "noExecutorCall [ev]"
      using parallelCall_event [OF Some [unfolded a], of l2]
        parallelCall_event [OF Some [unfolded a], of "[]"] by simp_all
    ultimately show ?thesis
      using l2 by blast
  qed
qed

lemma executeParallel_noExecutorCall:
  "executeParallel h ps res err c = (r, c', l) \<Longrightarrow> noExecutorCall l"
  by (auto simp: executeParallel_def split: prod.splits sum.splits list.splits
      dest: invokeHooks_noExecutorCall)

lemma keepsMiddlewares_Cons:
  "keepsMiddlewares (p # ps) \<Longrightarrow> keepsMiddlewares ps"
  by (simp add: keepsMiddlewares_def)

lemma invokeHooks_start_middlewares:
  "keepsMiddlewares ps \<Longrightarrow> invokeHooks OnRequestStart ps res err c = (r, c', l) \<Longrightarrow>
   middlewares c' = middlewares c"
proof (induction ps arbitrary: c r c' l)
  case Nil
  then show ?case by simp
next
  case (Cons p ps)
  note keep = keepsMiddlewares_Cons [OF Cons.prems(1)]
  show ?case
  proof (cases "onRequestStart p")
    case None
    then show ?thesis using Cons.IH [OF keep] Cons.prems(2) by (simp add: parallelCall_def)
  next
    case (Some hook)
    obtain out c1 where call: "hook c = (out, c1)" by (cases "hook c")
    have "middlewares (snd (hook c)) = middlewares c"
      using Cons.prems(1) Some by (simp add: keepsMiddlewares_def)
    then have c1: "middlewares c1 = middlewares c"
      using call by simp
    obtain r2 c2 l2 where rest: "invokeHooks OnRequestStart ps res err c1 = (r2, c2, l2)"
      by (metis prod_cases3)
    have "middlewares c2 = middlewares c1" using Cons.IH [OF keep rest] .
    moreover have "c' = c1 \<or> c' = c2"
      using Cons.prems(2) Some call rest
      by (cases out; cases r2) (auto simp: parallelCall_def)
    ultimately show ?thesis using c1 by auto
  qed
qed

lemma executeParallel_start_middlewares:
  "keepsMiddlewares ps \<Longrightarrow> executeParallel OnRequestStart ps res err c = (r, c', l) \<Longrightarrow>
   middlewares c' = middlewares c"
  by (auto simp: executeParallel_def split: prod.splits sum.splits list.splits
      dest: invokeHooks_start_middlewares)

lemma executeFirst_middlewares:
  "keepsMiddlewares ps \<Longrightarrow> executeFirst ps mid c = (r, c', l) \<Longrightarrow>
   middlewares c' = middlewares c"
proof (induction ps arbitrary: c r c' l)
  case Nil
  then show ?case by simp
next
  case (Cons p ps)
  note keep = keepsMiddlewares_Cons [OF Cons.prems(1)]
  show ?case
  proof (cases "resolveModel p")
    case None
    then show ?thesis using Cons.IH [OF keep] Cons.prems(2) by simp
  next
    case (Some hook)
    obtain out c1 where call: "hook mid c = (out, c1)" by (cases "hook mid c")
    have "middlewares (snd (hook mid c)) = middlewares c"
      using Cons.prems(1) Some by (simp add: keepsMiddlewares_def)
    then have c1: "middlewares c1 = middlewares c"
      using call by simp
    obtain r2 c2 l2 where rest: "executeFirst ps mid c1 = (r2, c2, l2)"
      by (metis prod_cases3)
    have "middlewares c2 = middlewares c1" using Cons.IH [OF keep rest] .
    moreover have "c' = c1 \<or> c' = c2"
      using Cons.prems(2) Some call rest
      by (auto split: sum.splits option.splits)
    ultimately show ?thesis using c1 by auto
  qed
qed

lemma resolveStep_middlewares:
  "keepsMiddlewares ps \<Longrightarrow> resolveStep ps pid handle mid c = (r, c', l) \<Longrightarrow>
   middlewares c' = middlewares c"
  by (cases handle)
     (auto simp: resolveStep_def andThen_def split: prod.splits sum.splits option.splits
      dest: executeFirst_middlewares)

lemma resolveStep_handle:
  "resolveStep ps pid (Some h) mid c = (r, c', l) \<Longrightarrow> r = Inr h \<and> l = []"
  by (auto simp: resolveStep_def)

lemma resolveStep_noExecutorCall:
  "resolveStep ps pid handle mid c = (r, c', l) \<Longrightarrow> noExecutorCall l"
  by (cases handle)
     (auto simp: resolveStep_def andThen_def split: prod.splits sum.splits option.splits
      dest: executeFirst_noExecutorCall)


lemma resolvesOnlyTo_Cons: "resolvesOnlyTo (p # ps) mid resolved \<Longrightarrow> resolvesOnlyTo ps mid resolved"
  by (simp add: resolvesOnlyTo_def)

lemma executeFirst_resolved:
  "resolvesOnlyTo ps mid resolved \<Longrightarrow> executeFirst ps mid c = (Inr (Some base), c', l) \<Longrightarrow>
   base = resolved"
proof (induction ps arbitrary: c c' l)
  case Nil
  then show ?case by simp
next
  case (Cons p ps)
  note rest = Cons.IH [OF resolvesOnlyTo_Cons [OF Cons.prems(1)]]
  show ?case
  proof (cases "resolveModel p")
    case None
    then show ?thesis using rest Cons.prems(2) by simp
  next
    case (Some hook)
    obtain out c1 where call: "hook mid c = (out, c1)" by (cases "hook mid c")
    have own: "out = Resolved (Some m) \<Longrightarrow> m = resolved" for m
    proof -
      assume "out = Resolved (Some m)"
      then have "fst (hook mid c) = Resolved (Some m)"
        using call by simp
      moreover have "\<forall>c m. fst (hook mid c) = Resolved (Some m) \<longrightarrow> m = resolved"
        using Cons.prems(1) Some by (simp add: resolvesOnlyTo_def)
      ultimately show "m = resolved" by blast
    qed
    obtain r2 c2 l2 where more: "executeFirst ps mid c1 = (r2, c2, l2)"
      by (metis prod_cases3)
    show ?thesis
    proof (cases out)
      case (Resolved answer)
      show ?thesis
      proof (cases answer)
        case None
        then have "r2 = Inr (Some base)"
          using Cons.prems(2) Some call Resolved more by simp
        then show ?thesis using rest more by blast
      next
        case (Some m)
        then have "base = m"
          using Cons.prems(2) \<open>resolveModel p = Some hook\<close> call Resolved by simp
        then show ?thesis using own Resolved Some by simp
      qed
    next
      case (Rejected e)
      then show ?thesis using Cons.prems(2) Some call by simp
    next
      case (Threw e)
      then show ?thesis using Cons.prems(2) Some call by simp
    next
      case (RejectedLater n e)
      then show ?thesis using Cons.prems(2) Some call by simp
    qed
  qed
qed

lemma resolveStep_resolved:
  "resolvesOnlyTo ps mid resolved \<Longrightarrow> resolveStep ps pid None mid c = (Inr base, c', l) \<Longrightarrow>
   base = resolved"
proof -
  assume only: "resolvesOnlyTo ps mid resolved"
    and run: "resolveStep ps pid None mid c = (Inr base, c', l)"
  obtain r1 c1 l1 where first: "executeFirst ps mid c = (r1, c1, l1)"
    by (metis prod_cases3)
  have "r1 = Inr (Some base)"
    using run first
    by (cases r1) (auto simp: resolveStep_def andThen_def split: option.splits)
  then show "base = resolved"
    using executeFirst_resolved [OF only] first by blast
qed

lemma applyMiddlewares_cong:
  "middlewares c = middlewares c' \<Longrightarrow> applyMiddlewares shape b c m = applyMiddlewares shape b c' m"
  by (cases shape) (simp_all add: applyMiddlewares_def)

lemma andThen_executor:
  assumes "andThen step f c = (r, c'', l)" "ExecutorCall m p \<in> set l"
    and "\<And>r' c' l'. step c = (r', c', l') \<Longrightarrow> noExecutorCall l'"
  obtains a c' l1 l2 where "step c = (Inr a, c', l1)" "f a c' = (r, c'', l2)"
    "ExecutorCall m p \<in> set l2"
  using assms(1)
proof (cases rule: andThenE)
  case (failed e)
  then show ?thesis using assms(2,3) by (auto simp: noExecutorCall_def)
next
  case (passed a c' l1 l2)
  then have "noExecutorCall l1" using assms(3) by blast
  then have "ExecutorCall m p \<in> set l2" using assms(2) passed(3) by (auto simp: noExecutorCall_def)
  then show ?thesis using passed that by blast
qed

lemma afterExecutor_noExecutorCall:
  assumes "andThen (executeTransformResult ps result) (\<lambda>transformedResult.
     andThen (executeParallel OnRequestEnd ps (Some transformedResult) None) (\<lambda>_ c.
       (Inr transformedResult, c, []))) c = (r, c', l)"
  shows "noExecutorCall l"
  using assms
proof (cases rule: andThenE)
  case (failed e)
  then show ?thesis by (blast dest: executeTransformResult_noExecutorCall)
next
  case (passed a c1 l1 l2)
  have l1: "noExecutorCall l1" using passed(1) by (rule executeTransformResult_noExecutorCall)
  from passed(2) have "noExecutorCall l2"
  proof (cases rule: andThenE)
    case (failed e)
    then show ?thesis by (blast dest: executeParallel_noExecutorCall)
  next
    case (passed b c2 l3 l4)
    then show ?thesis by (auto dest: executeParallel_noExecutorCall)
  qed
  then show ?thesis using l1 passed(3) by simp
qed

lemma fromExecutor_model:
  assumes "andThen (callExecutor shape ps ex rm tp) (\<lambda>result.
     andThen (executeTransformResult ps result) (\<lambda>transformedResult.
     andThen (executeParallel OnRequestEnd ps (Some transformedResult) None) (\<lambda>_ c.
       (Inr transformedResult, c, [])))) c = (r, c', l)"
    and "ExecutorCall m p \<in> set l"
  shows "m = rm \<and> p = tp"
  using assms(1)
proof (cases rule: andThenE)
  case (failed e)
  then show ?thesis using assms(2) by (auto simp: callExecutor_def)
next
  case (passed a c1 l1 l2)
  have "noExecutorCall l2" using passed(2) by (rule afterExecutor_noExecutorCall)
  moreover have "l1 = [ExecutorCall rm tp]" using passed(1) by (auto simp: callExecutor_def)
  ultimately show ?thesis using assms(2) passed(3) by (auto simp: noExecutorCall_def)
qed

lemma requestBody_executor_model:
  assumes keep: "keepsMiddlewares ps"
    and conf: "executeConfigureContext ps c = (Inr u, c1, l1)"
    and run: "requestBody shape ps pid ex params handle mid c = (r, c', l)"
    and ev: "ExecutorCall m p \<in> set l"
  shows "\<exists>base. m = applyMiddlewares shape (handle = None) c1 base \<and>
           (\<forall>h. handle = Some h \<longrightarrow> base = h) \<and>
           (\<forall>resolved. handle = None \<longrightarrow> resolvesOnlyTo ps mid resolved \<longrightarrow> base = resolved)"
proof -
  from run [unfolded requestBody_def] ev
  obtain a1 c1' l1' l2 where s1: "executeConfigureContext ps c = (Inr a1, c1', l1')"
    and r1: "andThen (executeParallel OnRequestStart ps None None) (\<lambda>_.
     andThen (resolveStep ps pid handle mid) (\<lambda>resolved.
     andThen (\<lambda>c. (Inr (applyMiddlewares shape (handle = None) c resolved), c, [])) (\<lambda>resolvedModel.
     andThen (executeTransformParams ps params) (\<lambda>transformedParams.
     andThen (callExecutor shape ps ex resolvedModel transformedParams) (\<lambda>result.
     andThen (executeTransformResult ps result) (\<lambda>transformedResult.
     andThen (executeParallel OnRequestEnd ps (Some transformedResult) None) (\<lambda>_ c.
       (Inr transformedResult, c, [])))))))) c1' = (r, c', l2)"
    and n2: "ExecutorCall m p \<in> set l2"
    by (rule andThen_executor) (blast dest: executeConfigureContext_noExecutorCall)
  have c1': "c1' = c1" using s1 conf by simp
  from r1 n2
  obtain a2 c2 l2' l3 where s2: "executeParallel OnRequestStart ps None None c1' = (Inr a2, c2, l2')"
    and r2: "andThen (resolveStep ps pid handle mid) (\<lambda>resolved.
     andThen (\<lambda>c. (Inr (applyMiddlewares shape (handle = None) c resolved), c, [])) (\<lambda>resolvedModel.
     andThen (executeTransformParams ps params) (\<lambda>transformedParams.
     andThen (callExecutor shape ps ex resolvedModel transformedParams) (\<lambda>result.
     andThen (executeTransformResult ps result) (\<lambda>transformedResult.
     andThen (executeParallel OnRequestEnd ps (Some transformedResult) None) (\<lambda>_ c.
       (Inr transformedResult, c, []))))))) c2 = (r, c', l3)"
    and n3: "ExecutorCall m p \<in> set l3"
    by (rule andThen_executor) (blast dest: executeParallel_noExecutorCall)
  have m2: "middlewares c2 = middlewares c1"
    using executeParallel_start_middlewares [OF keep s2] c1' by simp
  from r2 n3
  obtain base c3 l3' l4 where s3: "resolveStep ps pid handle mid c2 = (Inr base, c3, l3')"
    and r3: "andThen (\<lambda>c. (Inr (applyMiddlewares shape (handle = None) c base), c, [])) (\<lambda>resolvedModel.
     andThen (executeTransformParams ps params) (\<lambda>transformedParams.
     andThen (callExecutor shape ps ex resolvedModel transformedParams) (\<lambda>result.
     andThen (executeTransformResult ps result) (\<lambda>transformedResult.
     andThen (executeParallel OnRequestEnd ps (Some transformedResult) None) (\<lambda>_ c.
       (Inr transformedResult, c, [])))))) c3 = (r, c', l4)"
    and n4: "ExecutorCall m p \<in> set l4"
    by (rule andThen_executor) (blast dest: resolveStep_noExecutorCall)
  have m3: "middlewares c3 = middlewares c1"
    using resolveStep_middlewares [OF keep s3] m2 by simp
  have base: "\<forall>h. handle = Some h \<longrightarrow> base = h"
    using s3 by (auto dest: resolveStep_handle)
  have only: "\<forall>resolved. handle = None \<longrightarrow> resolvesOnlyTo ps mid resolved \<longrightarrow> base = resolved"
    using s3 by (auto dest: resolveStep_resolved)
  from r3 n4
  obtain rm c4 l4' l5 where s4: "(Inr (applyMiddlewares shape (handle = None) c3 base), c3, []) = (Inr rm, c4, l4')"
    and r4: "andThen (executeTransformParams ps params) (\<lambda>transformedParams.
     andThen (callExecutor shape ps ex rm transformedParams) (\<lambda>result.
     andThen (executeTransformResult ps result) (\<lambda>transformedResult.
     andThen (executeParallel OnRequestEnd ps (Some transformedResult) None) (\<lambda>_ c.
       (Inr transformedResult, c, []))))) c4 = (r, c', l5)"
    and n5: "ExecutorCall m p \<in> set l5"
    by (rule andThen_executor) auto
  have rm: "rm = applyMiddlewares shape (handle = None) c1 base"
    using s4 applyMiddlewares_cong [OF m3] by simp
  from r4 n5
  obtain tp c5 l5' l6 where s5: "executeTransformParams ps params c4 = (Inr tp, c5, l5')"
    and r5: "andThen (callExecutor shape ps ex rm tp) (\<lambda>result.
     andThen (executeTransformResult ps result) (\<lambda>transformedResult.
     andThen (executeParallel OnRequestEnd ps (Some transformedResult) None) (\<lambda>_ c.
       (Inr transformedResult, c, [])))) c5 = (r, c', l6)"
    and n6: "ExecutorCall m p \<in> set l6"
    by (rule andThen_executor) (blast dest: executeTransformParams_noExecutorCall)
  have "m = rm" using fromExecutor_model [OF r5 n6] by simp
  then show ?thesis using rm base only by blast
qed


lemma set_sortPlugins: "set (sortPlugins ps) = set ps"
  by (auto simp: sortPlugins_def)

lemma keepsMiddlewares_sortPlugins: "keepsMiddlewares ps \<Longrightarrow> keepsMiddlewares (sortPlugins ps)"
  by (simp add: keepsMiddlewares_def set_sortPlugins)

lemma resolvesOnlyTo_sortPlugins:
  "resolvesOnlyTo (sortPlugins ps) mid resolved = resolvesOnlyTo ps mid resolved"
  by (simp add: resolvesOnlyTo_def set_sortPlugins)

lemma catchError_executor:
  assumes "catchError ps body c = (r, c', l)" "ExecutorCall m p \<in> set l"
  obtains r1 c1 l1 where "body c = (r1, c1, l1)" "ExecutorCall m p \<in> set l1"
proof -
  obtain r1 c1 l1 where b: "body c = (r1, c1, l1)" by (metis prod_cases3)
  show ?thesis
  proof (cases r1)
    case (Inr x)
    then show ?thesis using assms b that by (simp add: catchError_def)
  next
    case (Inl e)
    obtain r2 c2 l2 where h: "executeParallel OnError ps None (errorArgument e) c1 = (r2, c2, l2)"
      by (metis prod_cases3)
    have "noExecutorCall l2" using h by (rule executeParallel_noExecutorCall)
    moreover have "l = l1 @ l2"
      using assms(1) b Inl h by (cases r2) (simp_all add: catchError_def)
    ultimately show ?thesis using assms(2) b that by (auto simp: noExecutorCall_def)
  qed
qed

lemma lifecycle_executor_model:
  assumes keep: "keepsMiddlewares ps"
    and conf: "executeConfigureContext (sortPlugins ps) (c0\<lparr>recursiveCall := Some params\<rparr>) = (Inr u, c1, l1)"
    and ev: "ExecutorCall m p \<in> set (snd (snd (lifecycle shape ps pid ex params (Some c0) now stamp)))"
  shows "\<exists>base. m = applyMiddlewares shape (\<forall>h. getProp params ''model'' \<noteq> JModel h) c1 base \<and>
           (\<forall>h. getProp params ''model'' = JModel h \<longrightarrow> base = h) \<and>
           (\<forall>mid resolved. getProp params ''model'' = JStr mid \<longrightarrow>
              resolvesOnlyTo ps mid resolved \<longrightarrow> base = resolved)"
proof (cases "getProp params ''model''")
  case (JStr mid)
  obtain r c' l where run: "catchError (sortPlugins ps)
      (requestBody shape (sortPlugins ps) pid ex params None mid) (c0\<lparr>recursiveCall := Some params\<rparr>) = (r, c', l)"
    by (metis prod_cases3)
  then have "ExecutorCall m p \<in> set l" using ev JStr by (simp add: lifecycle_def)
  with run obtain r1 c2 l2 where
    "requestBody shape (sortPlugins ps) pid ex params None mid (c0\<lparr>recursiveCall := Some params\<rparr>) = (r1, c2, l2)"
    "ExecutorCall m p \<in> set l2"
    by (rule catchError_executor)
  from requestBody_executor_model [OF keepsMiddlewares_sortPlugins [OF keep] conf this]
  show ?thesis using JStr by (simp add: resolvesOnlyTo_sortPlugins)
next
  case (JModel h)
  obtain r c' l where run: "catchError (sortPlugins ps)
      (requestBody shape (sortPlugins ps) pid ex params (Some h) (modelId h)) (c0\<lparr>recursiveCall := Some params\<rparr>) = (r, c', l)"
    by (metis prod_cases3)
  then have "ExecutorCall m p \<in> set l" using ev JModel by (simp add: lifecycle_def)
  with run obtain r1 c2 l2 where
    "requestBody shape (sortPlugins ps) pid ex params (Some h) (modelId h) (c0\<lparr>recursiveCall := Some params\<rparr>) = (r1, c2, l2)"
    "ExecutorCall m p \<in> set l2"
    by (rule catchError_executor)
  from requestBody_executor_model [OF keepsMiddlewares_sortPlugins [OF keep] conf this]
  show ?thesis using JModel by simp
qed (use ev in \<open>simp_all add: lifecycle_def\<close>)








lemma rejectionOf_empty: "rejectionOf out = [] \<longleftrightarrow> (\<exists>a. out = Resolved a) \<or> (\<exists>e. out = Threw e)"
  by (cases out) auto












section \<open>C2: a step that ends with tool uses\<close>

lemma pipeRecursiveStream_parts:
  "fst (pipeRecursiveStream parts err) =
     filter (\<lambda>v. v \<noteq> Start) (takeWhile (\<lambda>v. \<not> isFinish v) parts)"
  by (induction parts) (auto split: prod.splits)

lemma pipeRecursiveStream_error:
  "snd (pipeRecursiveStream parts err) = (if list_ex isFinish parts then None else err)"
  by (induction parts) (auto split: prod.splits)

text \<open>
  C2. A \<open>finish-step\<close> part arrives while the context holds prompt tools, no tools were
  executed in the step yet, and the parser finds pending tool uses in the text of the
  step. Then the step is marked on the context, the tools are run, and a \<open>finish-step\<close>
  part with the reason \<open>tool-calls\<close> is enqueued after what the executor enqueued
  (\<open>toolCallsStep\<close>); the recursive call is made, with the parameters of
  \<open>buildRecursiveParams\<close> and the mark cleared again; and of the parts of the nested
  stream those before its first \<open>finish\<close> part are enqueued, the \<open>start\<close> parts left
  out. The variables of the transform are as before.
\<close>

theorem finish_step_runs_tools_and_recurses:
  assumes tools: "mcpTools c = Some tools" "tools \<noteq> []"
    and fresh: "\<not> hasExecutedToolsInCurrentStep c"
    and found: "filter (\<lambda>t. status t = Pending) (parseToolUse config (textBuffer st) tools) = uses"
      "uses \<noteq> []"
    and run: "executeTools config uses tools = (executedResults, enqueued)"
    and marked: "c1 = accumulateStep fs (c\<lparr>hasExecutedToolsInCurrentStep := True\<rparr>)"
    and nested: "recur (buildRecursiveParams c1 (textBuffer st)
                   (formatToolResults config executedResults) tools)
                 (c1\<lparr>hasExecutedToolsInCurrentStep := False\<rparr>) = Some (Inr (Some (parts, err)), c2)"
  shows "toolCallsStep config fs uses tools c =
           (map Other enqueued @
              [FinishStep \<lparr>finishReason = ''tool-calls'', rawFinishReason = JUndefined,
                 response = response fs, stepUsage = stepUsage fs,
                 providerMetadata = providerMetadata fs\<rparr>],
            executedResults, c1) \<and>
         hasExecutedToolsInCurrentStep c1 \<and>
         transformChunk config recur (FinishStep fs) st c =
           Some (map Other enqueued @
                   [FinishStep \<lparr>finishReason = ''tool-calls'', rawFinishReason = JUndefined,
                      response = response fs, stepUsage = stepUsage fs,
                      providerMetadata = providerMetadata fs\<rparr>] @
                   filter (\<lambda>v. v \<noteq> Start) (takeWhile (\<lambda>v. \<not> isFinish v) parts),
                 (if list_ex isFinish parts then None else err), st, c2)"
proof -
  have valid: "validToolUses config (textBuffer st) c = uses"
    using tools fresh found by (simp add: validToolUses_def)
  have step: "toolCallsStep config fs uses tools c =
      (map Other enqueued @
         [FinishStep \<lparr>finishReason = ''tool-calls'', rawFinishReason = JUndefined,
            response = response fs, stepUsage = stepUsage fs,
            providerMetadata = providerMetadata fs\<rparr>],
       executedResults, c1)"
    using run marked by (simp add: toolCallsStep_def sendStepFinishEvent_def)
  have flag: "hasExecutedToolsInCurrentStep c1"
    using marked by (simp add: accumulateStep_def)
  obtain out e where piped: "pipeRecursiveStream parts err = (out, e)"
    by (cases "pipeRecursiveStream parts err")
  have out: "out = filter (\<lambda>v. v \<noteq> Start) (takeWhile (\<lambda>v. \<not> isFinish v) parts)"
    "e = (if list_ex isFinish parts then None else err)"
    using pipeRecursiveStream_parts [of parts err] pipeRecursiveStream_error [of parts err] piped
    by simp_all
  have "handleRecursiveCall recur (buildRecursiveParams c1 (textBuffer st)
          (formatToolResults config executedResults) tools) c1 = Some (out, e, c2)"
    using nested piped by (simp add: handleRecursiveCall_def)
  then have "transformChunk config recur (FinishStep fs) st c =
      Some ((map Other enqueued @
         [FinishStep \<lparr>finishReason = ''tool-calls'', rawFinishReason = JUndefined,
            response = response fs, stepUsage = stepUsage fs,
            providerMetadata = providerMetadata fs\<rparr>]) @ out, e, st, c2)"
    using valid found(2) step tools(1) by (simp add: transformChunk_def)
  then show ?thesis
    using step flag out by simp
qed


text \<open>
  Witness for C2: the first step of a request whose model asks for \<open>search\<close>; the nested
  request answers in plain text.
\<close>

theorem finish_step_runs_tools_and_recurses_witness:
  "mcpTools streamContext = Some [(''search'', JObj [(''description'', JStr ''web search'')])] \<and>
   \<not> hasExecutedToolsInCurrentStep streamContext \<and>
   filter (\<lambda>t. status t = Pending)
     (parseToolUse promptConfig (textBuffer toolStep)
        [(''search'', JObj [(''description'', JStr ''web search'')])]) = [searchCall] \<and>
   map_option fst (transformChunk promptConfig (reader 1 promptConfig [resolver] ''openai'' searching)
     (FinishStep (stepOf 10 5)) toolStep streamContext) =
     Some [Other ''tool-call'', Other ''tool-result'',
           FinishStep \<lparr>finishReason = ''tool-calls'', rawFinishReason = JUndefined,
             response = JNull, stepUsage = Some (counts 10 5 15), providerMetadata = JUndefined\<rparr>,
           StartStep, TextStart ''t2'', TextDelta ''t2'' ''Found it.'', TextEnd ''t2'',
           FinishStep (stepOf 20 3)]"
proof -
  let ?tools = "[(''search'', JObj [(''description'', JStr ''web search'')])]"
  let ?c1 = "accumulateStep (stepOf 10 5) (streamContext\<lparr>hasExecutedToolsInCurrentStep := True\<rparr>)"
  let ?recur = "reader 1 promptConfig [resolver] ''openai'' searching"
  have tools: "mcpTools streamContext = Some ?tools"
    by code_simp
  have fresh: "\<not> hasExecutedToolsInCurrentStep streamContext"
    by code_simp
  have found: "filter (\<lambda>t. status t = Pending)
      (parseToolUse promptConfig (textBuffer toolStep) ?tools) = [searchCall]"
    by code_simp
  have run: "executeTools promptConfig [searchCall] ?tools =
      ([searchCall\<lparr>status := Executed\<rparr>], [''tool-call'', ''tool-result''])"
    by code_simp
  have "map_option fst (?recur (buildRecursiveParams ?c1 (textBuffer toolStep)
          (formatToolResults promptConfig [searchCall\<lparr>status := Executed\<rparr>]) ?tools)
        (?c1\<lparr>hasExecutedToolsInCurrentStep := False\<rparr>)) =
      Some (Inr (Some ([Start, StartStep, TextStart ''t2'', TextDelta ''t2'' ''Found it.'', TextEnd ''t2'',
        FinishStep (stepOf 20 3), Finish ''stop'' (Some ((counts 30 8 38)
          \<lparr>usageReasoningTokens := Val 0, cachedInputTokens := Val 0\<rparr>))], None)))"
    by code_simp
  then obtain c2 where nested: "?recur (buildRecursiveParams ?c1 (textBuffer toolStep)
          (formatToolResults promptConfig [searchCall\<lparr>status := Executed\<rparr>]) ?tools)
        (?c1\<lparr>hasExecutedToolsInCurrentStep := False\<rparr>) =
      Some (Inr (Some ([Start, StartStep, TextStart ''t2'', TextDelta ''t2'' ''Found it.'', TextEnd ''t2'',
        FinishStep (stepOf 20 3), Finish ''stop'' (Some ((counts 30 8 38)
          \<lparr>usageReasoningTokens := Val 0, cachedInputTokens := Val 0\<rparr>))], None)), c2)"
    by auto
  have step: "response (stepOf 10 5) = JNull" "stepUsage (stepOf 10 5) = Some (counts 10 5 15)"
    "providerMetadata (stepOf 10 5) = JUndefined"
    by (simp_all add: stepOf_def)
  have some: "?tools \<noteq> []" "[searchCall] \<noteq> []"
    by simp_all
  from finish_step_runs_tools_and_recurses
    [where c = streamContext and ?c1.0 = "?c1" and fs = "stepOf 10 5" and recur = "?recur"
       and config = promptConfig and st = toolStep,
     OF tools some(1) fresh found some(2) run refl nested]
  show ?thesis
    using tools fresh found step by simp
qed

section \<open>What the hooks keep, the engine keeps\<close>

lemma hooksKeep_Cons: "hooksKeep keeps (p # ps) \<Longrightarrow> hooksKeep keeps ps"
  by (simp add: hooksKeep_def)

lemma hooksKeep_sortPlugins: "hooksKeep keeps (sortPlugins ps) = hooksKeep keeps ps"
  by (simp add: hooksKeep_def set_sortPlugins)

lemma executeConfigureContext_keeps:
  "hooksKeep keeps ps \<Longrightarrow> keeps c \<Longrightarrow> executeConfigureContext ps c = (r, c', l) \<Longrightarrow> keeps c'"
proof (induction ps arbitrary: c r c' l)
  case Nil
  then show ?case by simp
next
  case (Cons p ps)
  note rest = Cons.IH [OF hooksKeep_Cons [OF Cons.prems(1)]]
  show ?case
  proof (cases "configureContext p")
    case None
    then show ?thesis using rest Cons.prems(2,3) by simp
  next
    case (Some hook)
    obtain out c1 where call: "hook c = (out, c1)" by (cases "hook c")
    have "keeps (snd (hook c))"
      using Cons.prems(1,2) Some by (simp add: hooksKeep_def)
    then have c1: "keeps c1"
      using call by simp
    obtain r2 c2 l2 where more: "executeConfigureContext ps c1 = (r2, c2, l2)"
      by (metis prod_cases3)
    have "c' = c1 \<or> c' = c2"
      using Cons.prems(3) Some call more by (auto split: sum.splits)
    then show ?thesis
      using c1 rest [OF c1 more] by auto
  qed
qed

lemma executeFirst_keeps:
  "hooksKeep keeps ps \<Longrightarrow> keeps c \<Longrightarrow> executeFirst ps arg c = (r, c', l) \<Longrightarrow> keeps c'"
proof (induction ps arbitrary: c r c' l)
  case Nil
  then show ?case by simp
next
  case (Cons p ps)
  note rest = Cons.IH [OF hooksKeep_Cons [OF Cons.prems(1)]]
  show ?case
  proof (cases "resolveModel p")
    case None
    then show ?thesis using rest Cons.prems(2,3) by simp
  next
    case (Some hook)
    obtain out c1 where call: "hook arg c = (out, c1)" by (cases "hook arg c")
    have "keeps (snd (hook arg c))"
      using Cons.prems(1,2) Some by (simp add: hooksKeep_def)
    then have c1: "keeps c1"
      using call by simp
    obtain r2 c2 l2 where more: "executeFirst ps arg c1 = (r2, c2, l2)"
      by (metis prod_cases3)
    have "c' = c1 \<or> c' = c2"
      using Cons.prems(3) Some call more by (auto split: sum.splits option.splits)
    then show ?thesis
      using c1 rest [OF c1 more] by auto
  qed
qed

lemma executeTransformParams_keeps:
  "hooksKeep keeps ps \<Longrightarrow> keeps c \<Longrightarrow> executeTransformParams ps params c = (r, c', l) \<Longrightarrow> keeps c'"
proof (induction ps arbitrary: c r c' l params)
  case Nil
  then show ?case by simp
next
  case (Cons p ps)
  note rest = Cons.IH [OF hooksKeep_Cons [OF Cons.prems(1)]]
  show ?case
  proof (cases "transformParams p")
    case None
    then show ?thesis using rest Cons.prems(2,3) by simp
  next
    case (Some hook)
    obtain out c1 where call: "hook params c = (out, c1)" by (cases "hook params c")
    have "keeps (snd (hook params c))"
      using Cons.prems(1,2) Some by (simp add: hooksKeep_def)
    then have c1: "keeps c1"
      using call by simp
    show ?thesis
    proof (cases "settled out")
      case (Inl e)
      then show ?thesis using Cons.prems(3) Some call c1 by simp
    next
      case (Inr partial)
      obtain r2 c2 l2 where more: "executeTransformParams ps (spread params partial) c1 = (r2, c2, l2)"
        by (metis prod_cases3)
      have "c' = c2"
        using Cons.prems(3) Some call more Inr by simp
      then show ?thesis
        using rest [OF c1 more] by simp
    qed
  qed
qed

lemma executeTransformResult_keeps:
  "hooksKeep keeps ps \<Longrightarrow> keeps c \<Longrightarrow> executeTransformResult ps result c = (r, c', l) \<Longrightarrow> keeps c'"
proof (induction ps arbitrary: c r c' l result)
  case Nil
  then show ?case by simp
next
  case (Cons p ps)
  note rest = Cons.IH [OF hooksKeep_Cons [OF Cons.prems(1)]]
  show ?case
  proof (cases "transformResult p")
    case None
    then show ?thesis using rest Cons.prems(2,3) by simp
  next
    case (Some hook)
    obtain out c1 where call: "hook result c = (out, c1)" by (cases "hook result c")
    have "keeps (snd (hook result c))"
      using Cons.prems(1,2) Some by (simp add: hooksKeep_def)
    then have c1: "keeps c1"
      using call by simp
    show ?thesis
    proof (cases "settled out")
      case (Inl e)
      then show ?thesis using Cons.prems(3) Some call c1 by simp
    next
      case (Inr transformed)
      obtain r2 c2 l2 where more: "executeTransformResult ps transformed c1 = (r2, c2, l2)"
        by (metis prod_cases3)
      have "c' = c2"
        using Cons.prems(3) Some call more Inr by simp
      then show ?thesis
        using rest [OF c1 more] by simp
    qed
  qed
qed

lemma parallelCall_keeps:
  "hooksKeep keeps (p # ps) \<Longrightarrow> parallelCall h p res err = Some (call, ev) \<Longrightarrow> keeps c \<Longrightarrow>
   keeps (snd (call c))"
  by (auto simp: parallelCall_def hooksKeep_def split: parallelHook.splits option.splits)

lemma invokeHooks_keeps:
  "hooksKeep keeps ps \<Longrightarrow> keeps c \<Longrightarrow> invokeHooks h ps res err c = (r, c', l) \<Longrightarrow> keeps c'"
proof (induction ps arbitrary: c r c' l)
  case Nil
  then show ?case by simp
next
  case (Cons p ps)
  note rest = Cons.IH [OF hooksKeep_Cons [OF Cons.prems(1)]]
  show ?case
  proof (cases "parallelCall h p res err")
    case None
    then show ?thesis using rest Cons.prems(2,3) by simp
  next
    case (Some a)
    obtain call ev where a: "a = (call, ev)" by (cases a)
    have kept: "keeps (snd (call c))"
      using parallelCall_keeps [OF Cons.prems(1) Some [unfolded a] Cons.prems(2)] .
    obtain out c1 where call: "call c = (out, c1)" by (cases "call c")
    obtain r2 c2 l2 where more: "invokeHooks h ps res err c1 = (r2, c2, l2)"
      by (metis prod_cases3)
    have c1: "keeps c1"
      using kept call by simp
    have "c' = c1 \<or> c' = c2"
      using Cons.prems(3) Some a call more by (cases out; cases r2) auto
    then show ?thesis
      using c1 rest [OF c1 more] by auto
  qed
qed

lemma executeParallel_keeps:
  "hooksKeep keeps ps \<Longrightarrow> keeps c \<Longrightarrow> executeParallel h ps res err c = (r, c', l) \<Longrightarrow> keeps c'"
  by (auto simp: executeParallel_def split: prod.splits sum.splits list.splits
      dest: invokeHooks_keeps)

lemma stepKeepsI:
  "(\<And>c r c' l. keeps c \<Longrightarrow> s c = (r, c', l) \<Longrightarrow> keeps c') \<Longrightarrow> stepKeeps keeps s"
  unfolding stepKeeps_def by blast

lemma stepKeepsD:
  "stepKeeps keeps s \<Longrightarrow> keeps c \<Longrightarrow> s c = (r, c', l) \<Longrightarrow> keeps c'"
  unfolding stepKeeps_def by blast

lemma stepKeeps_andThen:
  assumes "stepKeeps keeps m" "\<And>a. stepKeeps keeps (f a)"
  shows "stepKeeps keeps (andThen m f)"
proof (rule stepKeepsI)
  fix c r c' l
  assume c: "keeps c" and run: "andThen m f c = (r, c', l)"
  from run show "keeps c'"
  proof (cases rule: andThenE)
    case (failed e)
    then show ?thesis using stepKeepsD [OF assms(1) c] by blast
  next
    case (passed a c1 l1 l2)
    have "keeps c1" using stepKeepsD [OF assms(1) c passed(1)] .
    then show ?thesis using stepKeepsD [OF assms(2) _ passed(2)] by blast
  qed
qed

lemma stepKeeps_return: "stepKeeps keeps (\<lambda>c. (g c, c, h c))"
  by (rule stepKeepsI) simp

lemma stepKeeps_resolveStep:
  assumes "hooksKeep keeps ps"
  shows "stepKeeps keeps (resolveStep ps pid handle mid)"
proof (cases handle)
  case None
  have "stepKeeps keeps (executeFirst ps mid)"
    using executeFirst_keeps [OF assms] by (blast intro: stepKeepsI)
  moreover have "stepKeeps keeps
      (case resolved of None \<Rightarrow> (\<lambda>c. (Inl (ModelResolutionError mid pid), c, []))
       | Some m \<Rightarrow> (\<lambda>c. (Inr m, c, [])))" for resolved :: "lmodel option"
    by (cases resolved) (simp_all add: stepKeeps_return)
  ultimately have "stepKeeps keeps (andThen (executeFirst ps mid)
      (\<lambda>resolved. case resolved of None \<Rightarrow> (\<lambda>c. (Inl (ModelResolutionError mid pid), c, []))
       | Some m \<Rightarrow> (\<lambda>c. (Inr m, c, []))))"
    by (rule stepKeeps_andThen)
  moreover have "resolveStep ps pid None mid = andThen (executeFirst ps mid)
      (\<lambda>resolved. case resolved of None \<Rightarrow> (\<lambda>c. (Inl (ModelResolutionError mid pid), c, []))
       | Some m \<Rightarrow> (\<lambda>c. (Inr m, c, [])))"
    by (auto simp: resolveStep_def fun_eq_iff andThen_def split: option.splits prod.splits sum.splits)
  ultimately show ?thesis using None by simp
next
  case (Some m)
  then show ?thesis by (simp add: resolveStep_def stepKeeps_return)
qed

lemma stepKeeps_requestBody:
  assumes keep: "hooksKeep keeps ps"
  shows "stepKeeps keeps (requestBody shape ps pid ex params handle mid)"
  unfolding requestBody_def
proof (intro stepKeeps_andThen)
  show "stepKeeps keeps (executeConfigureContext ps)"
    using executeConfigureContext_keeps [OF keep] by (blast intro: stepKeepsI)
  show "stepKeeps keeps (executeParallel OnRequestStart ps None None)"
    using executeParallel_keeps [OF keep] by (blast intro: stepKeepsI)
  show "stepKeeps keeps (resolveStep ps pid handle mid)"
    by (rule stepKeeps_resolveStep [OF keep])
  show "stepKeeps keeps (\<lambda>c. (Inr (applyMiddlewares shape (handle = None) c resolved), c, []))"
    for resolved
    by (rule stepKeeps_return)
  show "stepKeeps keeps (executeTransformParams ps params)"
    using executeTransformParams_keeps [OF keep] by (blast intro: stepKeepsI)
  show "stepKeeps keeps (callExecutor shape ps ex m transformedParams)" for m transformedParams
    by (rule stepKeepsI) (simp add: callExecutor_def)
  show "stepKeeps keeps (executeTransformResult ps result)" for result
    using executeTransformResult_keeps [OF keep] by (blast intro: stepKeepsI)
  show "stepKeeps keeps (executeParallel OnRequestEnd ps (Some transformedResult) None)"
    for transformedResult
    using executeParallel_keeps [OF keep] by (blast intro: stepKeepsI)
  show "stepKeeps keeps (\<lambda>c. (Inr transformedResult, c, []))" for transformedResult :: 'a
    by (rule stepKeeps_return)
qed

lemma catchError_keeps:
  assumes "hooksKeep keeps ps" "keeps c" "catchError ps body c = (r, c', l)"
    "stepKeeps keeps body"
  shows "keeps c'"
proof -
  obtain r1 c1 l1 where body: "body c = (r1, c1, l1)" by (metis prod_cases3)
  have c1: "keeps c1" using stepKeepsD [OF assms(4) assms(2) body] .
  show ?thesis
  proof (cases r1)
    case (Inr a)
    then show ?thesis using assms(3) body c1 by (simp add: catchError_def)
  next
    case (Inl e)
    obtain r2 c2 l2 where handler: "executeParallel OnError ps None (errorArgument e) c1 = (r2, c2, l2)"
      by (metis prod_cases3)
    have "c' = c2"
      using assms(3) body Inl handler by (cases r2) (simp_all add: catchError_def)
    then show ?thesis
      using executeParallel_keeps [OF assms(1) c1 handler] by simp
  qed
qed

lemma lifecycle_keeps:
  assumes "hooksKeep keeps ps" "keeps c" "\<And>c p. keeps (c\<lparr>recursiveCall := p\<rparr>) = keeps c"
    and run: "lifecycle shape ps pid ex params (Some c) now stamp = (r, c', l)"
  shows "keeps c'"
proof -
  have sorted: "hooksKeep keeps (sortPlugins ps)"
    using assms(1) by (simp add: hooksKeep_sortPlugins)
  have installed: "keeps (c\<lparr>recursiveCall := Some params\<rparr>)"
    using assms(2,3) by simp
  have body: "catchError (sortPlugins ps) (requestBody shape (sortPlugins ps) pid ex params handle mid)
      (c\<lparr>recursiveCall := Some params\<rparr>) = (r, c', l) \<Longrightarrow> keeps c'" for handle mid
    by (rule catchError_keeps [OF sorted installed _ stepKeeps_requestBody [OF sorted]])
  show ?thesis
  proof (cases "getProp params ''model''")
    case (JStr mid)
    then show ?thesis using run body [of None mid] by (simp add: lifecycle_def Let_def)
  next
    case (JModel h)
    then show ?thesis using run body [of "Some h" "modelId h"] by (simp add: lifecycle_def Let_def)
  qed (use run assms(2) in \<open>simp_all add: lifecycle_def Let_def\<close>)
qed

lemma recursiveCallFn_keeps:
  assumes "hooksKeep keeps ps" "keeps c" "\<And>c p. keeps (c\<lparr>recursiveCall := p\<rparr>) = keeps c"
    "\<And>c d. keeps (c\<lparr>recursiveDepth := d\<rparr>) = keeps c"
    "\<And>c b. keeps (c\<lparr>isRecursiveCall := b\<rparr>) = keeps c"
    and run: "recursiveCallFn shape ps pid ex params newParams c = (r, c', l)"
  shows "keeps c'"
proof (cases "recursiveDepth c \<ge> maxRecursiveDepth c")
  case True
  then show ?thesis using run assms(2) by (simp add: recursiveCallFn_def)
next
  case False
  obtain r1 c1 l1 where nested:
    "lifecycle shape ps pid ex (spread params newParams)
       (Some (c\<lparr>recursiveDepth := recursiveDepth c + 1, isRecursiveCall := True\<rparr>)) 0 [] = (r1, c1, l1)"
    by (metis prod_cases3)
  have "keeps (c\<lparr>recursiveDepth := recursiveDepth c + 1, isRecursiveCall := True\<rparr>)"
    using assms(2,4,5) by simp
  then have "keeps c1"
    using lifecycle_keeps [OF assms(1) _ assms(3) nested] by simp
  moreover have "c' = c1\<lparr>recursiveDepth := recursiveDepth c, isRecursiveCall := isRecursiveCall c\<rparr>"
    using run False nested by (simp add: recursiveCallFn_def Let_def)
  ultimately show ?thesis
    using assms(4,5) by simp
qed

lemma callRecursive_keeps:
  assumes "hooksKeep keeps ps" "keeps c" "\<And>c p. keeps (c\<lparr>recursiveCall := p\<rparr>) = keeps c"
    "\<And>c d. keeps (c\<lparr>recursiveDepth := d\<rparr>) = keeps c"
    "\<And>c b. keeps (c\<lparr>isRecursiveCall := b\<rparr>) = keeps c"
    and run: "callRecursive shape ps pid ex newParams c = (r, c', l)"
  shows "keeps c'"
proof (cases "recursiveCall c")
  case None
  then show ?thesis using run assms(2) by (simp add: callRecursive_def)
next
  case (Some params)
  obtain r1 c1 l1 where call: "recursiveCallFn shape ps pid ex params newParams c = (r1, c1, l1)"
    by (metis prod_cases3)
  have "c' = c1"
    using run Some call by (cases r1) (simp_all add: callRecursive_def)
  then show ?thesis
    using recursiveCallFn_keeps [OF assms(1-5) call] by simp
qed

lemma promptTransformParams_usage:
  "accumulatedUsage (snd (promptTransformParams config params c)) = accumulatedUsage c"
  by (cases "enabled config"; cases "getProp params ''tools''")
     (simp_all add: promptTransformParams_def Let_def)

lemma promptTransformParams_mcpTools:
  "mcpTools c \<noteq> None \<Longrightarrow> mcpTools (snd (promptTransformParams config params c)) \<noteq> None"
  by (cases "enabled config"; cases "getProp params ''tools''")
     (simp_all add: promptTransformParams_def Let_def)

lemma hooksLeave_hooksKeep:
  "hooksLeave field ps \<Longrightarrow> hooksKeep (\<lambda>c. holds (field c)) ps"
  unfolding hooksLeave_def hooksKeep_def by simp

lemma hooksKeep_usage:
  assumes "leavesUsageAlone others"
  shows "hooksKeep (\<lambda>c. accumulatedUsage c = u \<and> mcpTools c \<noteq> None)
           (promptToolUsePlugin config # others)"
    and "hooksKeep (\<lambda>c. accumulatedUsage c = u) (promptToolUsePlugin config # others)"
proof -
  have own: "hooksKeep (\<lambda>c. accumulatedUsage c = u \<and> mcpTools c \<noteq> None) [promptToolUsePlugin config]"
    "hooksKeep (\<lambda>c. accumulatedUsage c = u) [promptToolUsePlugin config]"
    using promptTransformParams_mcpTools [of _ config]
    by (auto simp: hooksKeep_def promptToolUsePlugin_def promptTransformParams_usage)
  have others1: "hooksKeep (\<lambda>c. accumulatedUsage c = u \<and> mcpTools c \<noteq> None) others"
    using hooksLeave_hooksKeep [OF assms [unfolded leavesUsageAlone_def],
      of "\<lambda>x. fst x = u \<and> snd x \<noteq> None"] by simp
  have others2: "hooksKeep (\<lambda>c. accumulatedUsage c = u) others"
    using hooksLeave_hooksKeep [OF assms [unfolded leavesUsageAlone_def], of "\<lambda>x. fst x = u"]
    by simp
  show "hooksKeep (\<lambda>c. accumulatedUsage c = u \<and> mcpTools c \<noteq> None)
           (promptToolUsePlugin config # others)"
    using own(1) others1 by (simp add: hooksKeep_def)
  show "hooksKeep (\<lambda>c. accumulatedUsage c = u) (promptToolUsePlugin config # others)"
    using own(2) others2 by (simp add: hooksKeep_def)
qed

section \<open>The closure a method installs, and the parameters the executor gets\<close>

text \<open>
  With no \<open>transformParams\<close> hook among the plugins the parameters go through the phase
  as they are; the executor of a method is called with what the phase returns; and a
  method run on \<open>params\<close> leaves the context holding the closure that captured \<open>params\<close>,
  when no hook writes \<open>recursiveCall\<close>.
\<close>

lemma executeTransformParams_none:
  "\<forall>q \<in> set ps. transformParams q = None \<Longrightarrow>
   executeTransformParams ps params c = (Inr params, c, [])"
  by (induction ps) simp_all

lemma requestBody_executor_params:
  assumes run: "requestBody shape ps pid ex params handle mid c = (r, c', l)"
    and ev: "ExecutorCall m p \<in> set l"
  shows "\<exists>c4 c5 l5. executeTransformParams ps params c4 = (Inr p, c5, l5)"
proof -
  from run [unfolded requestBody_def] ev
  obtain a1 c1 l1 l2 where
    r1: "andThen (executeParallel OnRequestStart ps None None) (\<lambda>_.
     andThen (resolveStep ps pid handle mid) (\<lambda>resolved.
     andThen (\<lambda>c. (Inr (applyMiddlewares shape (handle = None) c resolved), c, [])) (\<lambda>resolvedModel.
     andThen (executeTransformParams ps params) (\<lambda>transformedParams.
     andThen (callExecutor shape ps ex resolvedModel transformedParams) (\<lambda>result.
     andThen (executeTransformResult ps result) (\<lambda>transformedResult.
     andThen (executeParallel OnRequestEnd ps (Some transformedResult) None) (\<lambda>_ c.
       (Inr transformedResult, c, [])))))))) c1 = (r, c', l2)"
    and n2: "ExecutorCall m p \<in> set l2"
    by (rule andThen_executor) (blast dest: executeConfigureContext_noExecutorCall)
  from r1 n2
  obtain a2 c2 l2' l3 where
    r2: "andThen (resolveStep ps pid handle mid) (\<lambda>resolved.
     andThen (\<lambda>c. (Inr (applyMiddlewares shape (handle = None) c resolved), c, [])) (\<lambda>resolvedModel.
     andThen (executeTransformParams ps params) (\<lambda>transformedParams.
     andThen (callExecutor shape ps ex resolvedModel transformedParams) (\<lambda>result.
     andThen (executeTransformResult ps result) (\<lambda>transformedResult.
     andThen (executeParallel OnRequestEnd ps (Some transformedResult) None) (\<lambda>_ c.
       (Inr transformedResult, c, []))))))) c2 = (r, c', l3)"
    and n3: "ExecutorCall m p \<in> set l3"
    by (rule andThen_executor) (blast dest: executeParallel_noExecutorCall)
  from r2 n3
  obtain base c3 l3' l4 where
    r3: "andThen (\<lambda>c. (Inr (applyMiddlewares shape (handle = None) c base), c, [])) (\<lambda>resolvedModel.
     andThen (executeTransformParams ps params) (\<lambda>transformedParams.
     andThen (callExecutor shape ps ex resolvedModel transformedParams) (\<lambda>result.
     andThen (executeTransformResult ps result) (\<lambda>transformedResult.
     andThen (executeParallel OnRequestEnd ps (Some transformedResult) None) (\<lambda>_ c.
       (Inr transformedResult, c, [])))))) c3 = (r, c', l4)"
    and n4: "ExecutorCall m p \<in> set l4"
    by (rule andThen_executor) (blast dest: resolveStep_noExecutorCall)
  from r3 n4
  obtain rm c4 l4' l5 where
    r4: "andThen (executeTransformParams ps params) (\<lambda>transformedParams.
     andThen (callExecutor shape ps ex rm transformedParams) (\<lambda>result.
     andThen (executeTransformResult ps result) (\<lambda>transformedResult.
     andThen (executeParallel OnRequestEnd ps (Some transformedResult) None) (\<lambda>_ c.
       (Inr transformedResult, c, []))))) c4 = (r, c', l5)"
    and n5: "ExecutorCall m p \<in> set l5"
    by (rule andThen_executor) auto
  from r4 n5
  obtain tp c5 l5' l6 where s5: "executeTransformParams ps params c4 = (Inr tp, c5, l5')"
    and r5: "andThen (callExecutor shape ps ex rm tp) (\<lambda>result.
     andThen (executeTransformResult ps result) (\<lambda>transformedResult.
     andThen (executeParallel OnRequestEnd ps (Some transformedResult) None) (\<lambda>_ c.
       (Inr transformedResult, c, [])))) c5 = (r, c', l6)"
    and n6: "ExecutorCall m p \<in> set l6"
    by (rule andThen_executor) (blast dest: executeTransformParams_noExecutorCall)
  have "p = tp" using fromExecutor_model [OF r5 n6] by simp
  then show ?thesis using s5 by blast
qed

lemma lifecycle_executor_params:
  assumes ev: "ExecutorCall m p \<in> set (snd (snd (lifecycle shape ps pid ex params given now stamp)))"
    and none: "\<forall>q \<in> set ps. transformParams q = None"
  shows "p = params"
proof -
  define c where "c = (case given of Some c \<Rightarrow> c
    | None \<Rightarrow> createContext pid (getProp params ''model'') params now stamp)"
  have none': "\<forall>q \<in> set (sortPlugins ps). transformParams q = None"
    using none by (simp add: set_sortPlugins)
  have body: "p = params"
    if "ExecutorCall m p \<in> set (snd (snd (catchError (sortPlugins ps)
        (requestBody shape (sortPlugins ps) pid ex params handle mid) (c\<lparr>recursiveCall := Some params\<rparr>))))"
    for handle mid c
  proof -
    obtain r c' l where run: "catchError (sortPlugins ps)
        (requestBody shape (sortPlugins ps) pid ex params handle mid) (c\<lparr>recursiveCall := Some params\<rparr>) = (r, c', l)"
      by (metis prod_cases3)
    then have "ExecutorCall m p \<in> set l" using that by simp
    with run obtain r1 c2 l2 where
      "requestBody shape (sortPlugins ps) pid ex params handle mid (c\<lparr>recursiveCall := Some params\<rparr>) = (r1, c2, l2)"
      "ExecutorCall m p \<in> set l2"
      by (rule catchError_executor)
    from requestBody_executor_params [OF this]
    show ?thesis
      using executeTransformParams_none [OF none'] by auto
  qed
  show ?thesis
  proof (cases "getProp params ''model''")
    case (JStr mid)
    then show ?thesis
      using ev body [of None mid] by (simp add: lifecycle_def Let_def)
  next
    case (JModel h)
    then show ?thesis
      using ev body [of "Some h" "modelId h"] by (simp add: lifecycle_def Let_def)
  qed (use ev in \<open>simp_all add: lifecycle_def Let_def\<close>)
qed

lemma lifecycle_installs_the_closure:
  assumes leave: "hooksLeave recursiveCall ps"
    and model: "(\<exists>mid. getProp params ''model'' = JStr mid) \<or> (\<exists>h. getProp params ''model'' = JModel h)"
  shows "recursiveCall (fst (snd (lifecycle shape ps pid ex params given now stamp))) = Some params"
proof -
  have keep: "hooksKeep (\<lambda>c. recursiveCall c = Some params) (sortPlugins ps)"
    using hooksLeave_hooksKeep [OF leave, of "\<lambda>x. x = Some params"]
    by (simp add: hooksKeep_sortPlugins)
  have body: "recursiveCall (fst (snd (catchError (sortPlugins ps)
      (requestBody shape (sortPlugins ps) pid ex params handle mid) (c\<lparr>recursiveCall := Some params\<rparr>)))) =
        Some params" for handle mid c
  proof -
    obtain r c' l where run: "catchError (sortPlugins ps)
        (requestBody shape (sortPlugins ps) pid ex params handle mid) (c\<lparr>recursiveCall := Some params\<rparr>) = (r, c', l)"
      by (metis prod_cases3)
    have "recursiveCall c' = Some params"
      by (rule catchError_keeps [OF keep _ run stepKeeps_requestBody [OF keep]]) simp
    then show ?thesis using run by simp
  qed
  from model show ?thesis
  proof (elim disjE exE)
    fix mid assume "getProp params ''model'' = JStr mid"
    then show ?thesis
      using body [of None mid] by (simp add: lifecycle_def Let_def)
  next
    fix h assume "getProp params ''model'' = JModel h"
    then show ?thesis
      using body [of "Some h" "modelId h"] by (simp add: lifecycle_def Let_def)
  qed
qed

section \<open>The tag extractor: fragments and the whole text\<close>

lemma scan_split: "scan tag xs = (before, rest) \<Longrightarrow> xs = before @ rest"
  by (induction xs arbitrary: before rest) (auto split: if_splits prod.splits)

lemma scan_hit: "prefix tag xs \<Longrightarrow> scan tag xs = ([], xs)"
  by (cases xs) auto

lemma scan_held: "prefix xs tag \<Longrightarrow> scan tag xs = ([], xs)"
  by (cases xs) auto

lemma scan_rest: "scan tag xs = (before, rest) \<Longrightarrow> prefix tag rest \<or> prefix rest tag"
  by (induction xs arbitrary: before rest) (auto split: if_splits prod.splits)

lemma scan_append:
  "scan tag xs = (before, rest) \<Longrightarrow>
   scan tag (xs @ ys) = (case scan tag (rest @ ys) of (b, r) \<Rightarrow> (before @ b, r))"
proof (induction xs arbitrary: before rest)
  case Nil
  then show ?case by (simp split: prod.splits)
next
  case (Cons x xs)
  show ?case
  proof (cases "prefix tag (x # xs) \<or> prefix (x # xs) tag")
    case True
    then show ?thesis using Cons.prems by (auto split: prod.splits)
  next
    case False
    obtain b r where s: "scan tag xs = (b, r)" by (cases "scan tag xs")
    have br: "before = x # b" "rest = r" using Cons.prems False s by auto
    have "\<not> prefix tag (x # xs @ ys)"
    proof
      assume "prefix tag (x # xs @ ys)"
      then have "prefix tag ((x # xs) @ ys)" by simp
      then have "prefix tag (x # xs) \<or> prefix (x # xs) tag"
        unfolding prefix_append by (auto simp: prefix_def)
      with False show False by simp
    qed
    moreover have "\<not> prefix (x # xs @ ys) tag"
    proof
      assume "prefix (x # xs @ ys) tag"
      then have "prefix ((x # xs) @ ys) tag" by simp
      then have "prefix (x # xs) tag" by (rule append_prefixD)
      with False show False by simp
    qed
    ultimately show ?thesis
      using Cons.IH [OF s] br by (simp split: prod.splits)
  qed
qed

lemma extractFrom_hit:
  "scan (expectedTag config inside) xs = (before, rest) \<Longrightarrow>
   expectedTag config inside \<noteq> [] \<Longrightarrow> prefix (expectedTag config inside) rest \<Longrightarrow>
   extractFrom config inside due xs =
     (case extractFrom config (\<not> inside) (inside \<or> dueAfter inside due before)
             (drop (length (expectedTag config inside)) rest) of
        (results, st) \<Rightarrow> (fragmentOf config inside due before # results, st))"
  by (subst extractFrom.simps) simp

lemma extractFrom_stop:
  "scan (expectedTag config inside) xs = (before, rest) \<Longrightarrow>
   \<not> (expectedTag config inside \<noteq> [] \<and> prefix (expectedTag config inside) rest) \<Longrightarrow>
   extractFrom config inside due xs =
     ([fragmentOf config inside due before],
      \<lparr>buffer = rest, insideTag = inside, separatorDue = dueAfter inside due before\<rparr>)"
  by (subst extractFrom.simps) auto

lemma dueAfter_append:
  "dueAfter inside due (before @ b) = dueAfter inside (dueAfter inside due before) b"
  by (auto simp: dueAfter_def)

lemma outsideText_Cons: "outsideText (r # rs) = outsideText [r] @ outsideText rs"
  by (simp add: outsideText_def)

lemma outsideText_fragmentOf_append:
  "outsideText [fragmentOf config inside due (before @ b)] =
     outsideText [fragmentOf config inside due before] @
     outsideText [fragmentOf config inside (dueAfter inside due before) b]"
  by (auto simp: outsideText_def fragmentOf_def dueAfter_def)

lemma extractFrom_append:
  "extractFrom config inside due xs = (rs1, st1) \<Longrightarrow>
   extractFrom config (insideTag st1) (separatorDue st1) (buffer st1 @ ys) = (rs2, st2) \<Longrightarrow>
   snd (extractFrom config inside due (xs @ ys)) = st2 \<and>
   outsideText (fst (extractFrom config inside due (xs @ ys))) = outsideText rs1 @ outsideText rs2"
proof (induction config inside due xs arbitrary: rs1 st1 rule: extractFrom.induct)
  case (1 config inside due xs)
  define tag where "tag = expectedTag config inside"
  obtain before rest where s: "scan tag xs = (before, rest)" by (cases "scan tag xs")
  show ?case
  proof (cases "tag \<noteq> [] \<and> prefix tag rest")
    case True
    define due1 where "due1 = (inside \<or> dueAfter inside due before)"
    obtain rs1' st1' where rec:
      "extractFrom config (\<not> inside) due1 (drop (length tag) rest) = (rs1', st1')"
      by (cases "extractFrom config (\<not> inside) due1 (drop (length tag) rest)")
    have e1: "rs1 = fragmentOf config inside due before # rs1'" "st1 = st1'"
      using "1.prems"(1) extractFrom_hit [OF s [unfolded tag_def], of due] True rec
      by (simp_all add: tag_def due1_def)
    have hit: "scan tag (rest @ ys) = ([], rest @ ys)"
      using True by (intro scan_hit) (auto simp: prefix_def)
    have s2: "scan tag (xs @ ys) = (before, rest @ ys)"
      using scan_append [OF s, of ys] hit by simp
    have full: "prefix tag (rest @ ys)"
      using True by (auto simp: prefix_def)
    have dr: "drop (length tag) (rest @ ys) = drop (length tag) rest @ ys"
      using True by (auto simp: prefix_def)
    have ih: "snd (extractFrom config (\<not> inside) due1 (drop (length tag) rest @ ys)) = st2 \<and>
        outsideText (fst (extractFrom config (\<not> inside) due1 (drop (length tag) rest @ ys))) =
          outsideText rs1' @ outsideText rs2"
      unfolding tag_def due1_def
    proof (rule "1.IH")
      show "(before, rest) = scan (expectedTag config inside) xs"
        using s by (simp add: tag_def)
      show "expectedTag config inside \<noteq> [] \<and> prefix (expectedTag config inside) rest"
        using True by (simp add: tag_def)
      show "extractFrom config (\<not> inside) (inside \<or> dueAfter inside due before)
          (drop (length (expectedTag config inside)) rest) = (rs1', st1')"
        using rec by (simp add: tag_def due1_def)
      show "extractFrom config (insideTag st1') (separatorDue st1') (buffer st1' @ ys) = (rs2, st2)"
        using "1.prems"(2) e1(2) by simp
    qed
    have whole: "extractFrom config inside due (xs @ ys) =
        (case extractFrom config (\<not> inside) due1 (drop (length tag) rest @ ys) of
           (results, st) \<Rightarrow> (fragmentOf config inside due before # results, st))"
      using extractFrom_hit [OF s2 [unfolded tag_def], of due] True full dr
      by (simp add: tag_def due1_def)
    obtain rsw stw where w: "extractFrom config (\<not> inside) due1 (drop (length tag) rest @ ys) = (rsw, stw)"
      by (cases "extractFrom config (\<not> inside) due1 (drop (length tag) rest @ ys)")
    show ?thesis
      using ih e1 whole w
        outsideText_Cons [of "fragmentOf config inside due before" rsw]
        outsideText_Cons [of "fragmentOf config inside due before" rs1']
      by simp
  next
    case False
    define due1 where "due1 = dueAfter inside due before"
    have e1: "rs1 = [fragmentOf config inside due before]"
      "st1 = \<lparr>buffer = rest, insideTag = inside, separatorDue = due1\<rparr>"
      using "1.prems"(1) extractFrom_stop [OF s [unfolded tag_def], of due] False
      by (simp_all add: tag_def due1_def)
    obtain b r where s3: "scan tag (rest @ ys) = (b, r)" by (cases "scan tag (rest @ ys)")
    have s2: "scan tag (xs @ ys) = (before @ b, r)"
      using scan_append [OF s, of ys] s3 by simp
    have second: "extractFrom config inside due1 (rest @ ys) = (rs2, st2)"
      using "1.prems"(2) e1 by simp
    have due2: "dueAfter inside due (before @ b) = dueAfter inside due1 b"
      by (simp add: dueAfter_append due1_def)
    note joined = outsideText_fragmentOf_append [of config inside due before b, folded due1_def]
    show ?thesis
    proof (cases "tag \<noteq> [] \<and> prefix tag r")
      case True
      obtain rs' st' where rec:
        "extractFrom config (\<not> inside) (inside \<or> dueAfter inside due1 b) (drop (length tag) r) = (rs', st')"
        by (cases "extractFrom config (\<not> inside) (inside \<or> dueAfter inside due1 b) (drop (length tag) r)")
      have a: "rs2 = fragmentOf config inside due1 b # rs'" "st2 = st'"
        using second extractFrom_hit [OF s3 [unfolded tag_def], of due1] True rec
        by (simp_all add: tag_def)
      have w: "extractFrom config inside due (xs @ ys) =
          (fragmentOf config inside due (before @ b) # rs', st')"
        using extractFrom_hit [OF s2 [unfolded tag_def], of due] True rec due2
        by (simp add: tag_def)
      show ?thesis
        using a w e1 joined
          outsideText_Cons [of "fragmentOf config inside due (before @ b)" rs']
          outsideText_Cons [of "fragmentOf config inside due1 b" rs']
        by simp
    next
      case False
      have a: "rs2 = [fragmentOf config inside due1 b]"
        "st2 = \<lparr>buffer = r, insideTag = inside, separatorDue = dueAfter inside due1 b\<rparr>"
        using second extractFrom_stop [OF s3 [unfolded tag_def], of due1] False
        by (simp_all add: tag_def)
      have w: "extractFrom config inside due (xs @ ys) =
          ([fragmentOf config inside due (before @ b)],
           \<lparr>buffer = r, insideTag = inside, separatorDue = dueAfter inside due1 b\<rparr>)"
        using extractFrom_stop [OF s2 [unfolded tag_def], of due] False due2
        by (simp add: tag_def)
      show ?thesis
        using a w e1 joined by simp
    qed
  qed
qed

lemma feed_as_one_fragment:
  "extractFrom config inside due xs = (rs1, st1) \<Longrightarrow> feed config st1 fragments = (rs2, st2) \<Longrightarrow>
   snd (extractFrom config inside due (xs @ concat fragments)) = st2 \<and>
   outsideText (fst (extractFrom config inside due (xs @ concat fragments))) =
     outsideText rs1 @ outsideText rs2"
proof (induction fragments arbitrary: xs rs1 st1 rs2 st2)
  case Nil
  then show ?case by (simp add: outsideText_def)
next
  case (Cons f fs)
  obtain rsa sta where a:
    "extractFrom config (insideTag st1) (separatorDue st1) (buffer st1 @ f) = (rsa, sta)"
    by (cases "extractFrom config (insideTag st1) (separatorDue st1) (buffer st1 @ f)")
  obtain rsb stb where b: "feed config sta fs = (rsb, stb)"
    by (cases "feed config sta fs")
  have r: "rs2 = rsa @ rsb" "st2 = stb"
    using Cons.prems(2) a b by (simp_all add: tagProcessText_def)
  obtain rsx stx where x: "extractFrom config inside due (xs @ f) = (rsx, stx)"
    by (cases "extractFrom config inside due (xs @ f)")
  have step: "stx = sta" "outsideText rsx = outsideText rs1 @ outsideText rsa"
    using extractFrom_append [OF Cons.prems(1) a] x by simp_all
  have "snd (extractFrom config inside due ((xs @ f) @ concat fs)) = stb \<and>
      outsideText (fst (extractFrom config inside due ((xs @ f) @ concat fs))) =
        outsideText rsx @ outsideText rsb"
    using Cons.IH [OF x [unfolded step(1)] b] by simp
  then show ?case
    using r step by (simp add: outsideText_def)
qed

lemma extractFrom_empty:
  "extractFrom config False False [] =
     ([\<lparr>content = [], isTagContent = False\<rparr>], newTagState)"
  by (subst extractFrom.simps) (auto simp: newTagState_def fragmentOf_def dueAfter_def)

lemma outsideText_append: "outsideText (a @ b) = outsideText a @ outsideText b"
  by (simp add: outsideText_def)

lemma outsideText_extractAll:
  "outsideText (extractAll config fragments) =
     outsideText (fst (extractFrom config False False (concat fragments))) @
     outsideText (tagFlush config (snd (extractFrom config False False (concat fragments))))"
proof -
  obtain rs st where f: "feed config newTagState fragments = (rs, st)"
    by (cases "feed config newTagState fragments")
  have "snd (extractFrom config False False ([] @ concat fragments)) = st \<and>
      outsideText (fst (extractFrom config False False ([] @ concat fragments))) =
        outsideText [\<lparr>content = [], isTagContent = False\<rparr>] @ outsideText rs"
    using extractFrom_empty f by (rule feed_as_one_fragment)
  then show ?thesis
    using f by (simp add: extractAll_def outsideText_def)
qed

text \<open>
  C4, as amended. For every configuration and every list of fragments: the text emitted
  outside the tag is the same as when the whole text, the concatenation of the
  fragments, is fed as one fragment, wherever the fragments are cut (inside a tag as
  well).
\<close>

theorem tag_extraction_is_independent_of_the_split:
  "outsideText (extractAll config fragments) = outsideText (extractAll config [concat fragments])"
  by (simp add: outsideText_extractAll)

text \<open>
  Witness for C4: the text \<open>Hello <tool_use>x</tool_use> World\<close> cut inside the opening
  tag and inside the closing tag. The outside text is \<open>Hello\<close> and \<open>World\<close> with their
  blanks and the separator, a line feed, between them.
\<close>

theorem tag_extraction_is_independent_of_the_split_witness:
  "outsideText (extractAll TOOL_USE_TAG_CONFIG [''Hello <to'', ''ol_use>x</tool'', ''_use> Wor'', ''ld'']) =
     ''Hello '' @ [CHR 0x0A] @ '' World'' \<and>
   outsideText (extractAll TOOL_USE_TAG_CONFIG [''Hello <tool_use>x</tool_use> World'']) =
     ''Hello '' @ [CHR 0x0A] @ '' World''"
proof -
  have whole: "outsideText (extractAll TOOL_USE_TAG_CONFIG [''Hello <tool_use>x</tool_use> World'']) =
      ''Hello '' @ [CHR 0x0A] @ '' World''"
    by code_simp
  from tag_extraction_is_independent_of_the_split
    [of TOOL_USE_TAG_CONFIG "[''Hello <to'', ''ol_use>x</tool'', ''_use> Wor'', ''ld'']"]
  show ?thesis
    using whole by simp
qed

text \<open>
  Counterexample to C4 as stated: the emitted fragments of
  \<open>Hello <tool_use>x</tool_use> World\<close>, outside and inside ones in the order of emission,
  do not concatenate to the input: the tags are consumed, the opening tag is nowhere in
  what is emitted.
\<close>

theorem emitted_fragments_omit_the_tags:
  "emittedText (extractAll TOOL_USE_TAG_CONFIG [''Hello <tool_use>x</tool_use> World'']) \<noteq>
     ''Hello <tool_use>x</tool_use> World'' \<and>
   \<not> sublist ''<tool_use>''
     (emittedText (extractAll TOOL_USE_TAG_CONFIG [''Hello <tool_use>x</tool_use> World'']))"
  by code_simp
section \<open>C5: accumulation of usage\<close>

lemma image_shape_language: "image_shape u \<Longrightarrow> language_shape u"
  by (auto simp: image_shape_def language_shape_def isImageModelUsage_def isLanguageModelUsage_def)

lemma accumulate_language:
  "language_shape t \<Longrightarrow> language_shape s \<Longrightarrow>
   accumulateUsage (Some t) (Some s) = (Some (addLanguageUsage t s), [])"
  by (simp add: accumulateUsage_def language_shape_def)

lemma accumulate_embedding:
  "embedding_shape t \<Longrightarrow> embedding_shape s \<Longrightarrow>
   accumulateUsage (Some t) (Some s) = (Some (t\<lparr>tokens := Val (or0 (tokens t) + or0 (tokens s))\<rparr>), [])"
  by (simp add: accumulateUsage_def embedding_shape_def isEmbeddingModelUsage_def
      isLanguageModelUsage_def isImageModelUsage_def)

lemma addLanguageUsage_shape: "language_shape t \<Longrightarrow> language_shape (addLanguageUsage t s)"
  by (simp add: addLanguageUsage_def language_shape_def isLanguageModelUsage_def addTokenCounts_def)

lemma embedding_add_shape: "embedding_shape t \<Longrightarrow> embedding_shape (t\<lparr>tokens := Val n\<rparr>)"
  by (simp add: embedding_shape_def isEmbeddingModelUsage_def)

lemma sumInputTokenDetails_commute:
  "sumInputTokenDetails (sumInputTokenDetails t a) b = sumInputTokenDetails (sumInputTokenDetails t b) a"
  by (cases a; cases b; cases t) (simp_all add: Let_def newInputTokenDetails_def)

lemma sumInputTokenDetails_assoc:
  "sumInputTokenDetails t (sumInputTokenDetails a b) = sumInputTokenDetails (sumInputTokenDetails t a) b"
  by (cases a; cases b; cases t) (simp_all add: Let_def newInputTokenDetails_def)

lemma sumOutputTokenDetails_commute:
  "sumOutputTokenDetails (sumOutputTokenDetails t a) b = sumOutputTokenDetails (sumOutputTokenDetails t b) a"
  by (cases a; cases b; cases t) (simp_all add: Let_def newOutputTokenDetails_def)

lemma sumOutputTokenDetails_assoc:
  "sumOutputTokenDetails t (sumOutputTokenDetails a b) = sumOutputTokenDetails (sumOutputTokenDetails t a) b"
  by (cases a; cases b; cases t) (simp_all add: Let_def newOutputTokenDetails_def)

lemma addLanguageUsage_commute:
  "addLanguageUsage (addLanguageUsage t a) b = addLanguageUsage (addLanguageUsage t b) a"
  by (simp add: addLanguageUsage_def addTokenCounts_def
      sumInputTokenDetails_commute [of _ "inputTokenDetails a" "inputTokenDetails b"]
      sumOutputTokenDetails_commute [of _ "outputTokenDetails a" "outputTokenDetails b"])

lemma addLanguageUsage_assoc:
  "addLanguageUsage t (addLanguageUsage a b) = addLanguageUsage (addLanguageUsage t a) b"
  by (simp add: addLanguageUsage_def addTokenCounts_def sumInputTokenDetails_assoc
      sumOutputTokenDetails_assoc)

lemma same_shape_cases:
  "same_shape a b \<longleftrightarrow> language_shape a \<and> language_shape b \<or> embedding_shape a \<and> embedding_shape b"
  using image_shape_language by (auto simp: same_shape_def)

text \<open>
  C5. For a target and two sources of one shape, accumulating the sources in either
  order gives the same target (commutative), accumulating the second source into the
  first and the result into the target gives the same target as accumulating them one
  after the other (associative), and no diagnostic is written. Accumulating 10/20/30 and
  5/10/15 into a zero target gives 15/30/45 in either order. For two records of
  different shapes (one language-model or image-model, the other embedding) the target
  is returned as it was, with the one diagnostic; the function has no failing branch.
\<close>

theorem accumulateUsage_commutes_and_skips_mismatch:
  "(same_shape t a \<and> same_shape t b \<longrightarrow>
      fst (accumulateAll (Some t) [Some a, Some b]) = fst (accumulateAll (Some t) [Some b, Some a]) \<and>
      fst (accumulateAll (Some t) [fst (accumulateUsage (Some a) (Some b))]) =
        fst (accumulateAll (Some t) [Some a, Some b]) \<and>
      snd (accumulateAll (Some t) [Some a, Some b]) = []) \<and>
   accumulateAll (Some (counts 0 0 0)) [Some (counts 10 20 30), Some (counts 5 10 15)] =
     (Some (counts 15 30 45), []) \<and>
   accumulateAll (Some (counts 0 0 0)) [Some (counts 5 10 15), Some (counts 10 20 30)] =
     (Some (counts 15 30 45), []) \<and>
   ((language_shape t \<or> embedding_shape t) \<and> (language_shape s \<or> embedding_shape s) \<and>
      \<not> same_shape t s \<longrightarrow>
      accumulateUsage (Some t) (Some s) = (Some t, [typeMismatchWarning]))"
proof (intro conjI impI)
  show "accumulateAll (Some (counts 0 0 0)) [Some (counts 10 20 30), Some (counts 5 10 15)] =
     (Some (counts 15 30 45), [])"
    by (simp add: accumulateUsage_def counts_def emptyUsage_def isLanguageModelUsage_def
        addLanguageUsage_def addTokenCounts_def)
  show "accumulateAll (Some (counts 0 0 0)) [Some (counts 5 10 15), Some (counts 10 20 30)] =
     (Some (counts 15 30 45), [])"
    by (simp add: accumulateUsage_def counts_def emptyUsage_def isLanguageModelUsage_def
        addLanguageUsage_def addTokenCounts_def)
next
  assume h: "same_shape t a \<and> same_shape t b"
  then consider "language_shape t" "language_shape a" "language_shape b"
    | "embedding_shape t" "embedding_shape a" "embedding_shape b"
    unfolding same_shape_cases
    by (auto simp: language_shape_def embedding_shape_def isEmbeddingModelUsage_def
        isLanguageModelUsage_def)
  note shapes = this
  show "fst (accumulateAll (Some t) [Some a, Some b]) = fst (accumulateAll (Some t) [Some b, Some a])"
  proof (rule shapes)
    assume "language_shape t" "language_shape a" "language_shape b"
    then show ?thesis
      by (simp add: accumulate_language addLanguageUsage_shape addLanguageUsage_commute [of t a b])
  next
    assume "embedding_shape t" "embedding_shape a" "embedding_shape b"
    then show ?thesis
      by (simp add: accumulate_embedding embedding_add_shape)
  qed
  show "fst (accumulateAll (Some t) [fst (accumulateUsage (Some a) (Some b))]) =
        fst (accumulateAll (Some t) [Some a, Some b])"
  proof (rule shapes)
    assume "language_shape t" "language_shape a" "language_shape b"
    then show ?thesis
      by (simp add: accumulate_language addLanguageUsage_shape addLanguageUsage_assoc)
  next
    assume "embedding_shape t" "embedding_shape a" "embedding_shape b"
    then show ?thesis
      by (simp add: accumulate_embedding embedding_add_shape)
  qed
  show "snd (accumulateAll (Some t) [Some a, Some b]) = []"
  proof (rule shapes)
    assume "language_shape t" "language_shape a" "language_shape b"
    then show ?thesis
      by (simp add: accumulate_language addLanguageUsage_shape)
  next
    assume "embedding_shape t" "embedding_shape a" "embedding_shape b"
    then show ?thesis
      by (simp add: accumulate_embedding embedding_add_shape)
  qed
next
  assume "(language_shape t \<or> embedding_shape t) \<and> (language_shape s \<or> embedding_shape s) \<and>
      \<not> same_shape t s"
  then show "accumulateUsage (Some t) (Some s) = (Some t, [typeMismatchWarning])"
    unfolding same_shape_cases
    by (auto simp: accumulateUsage_def language_shape_def embedding_shape_def
        isEmbeddingModelUsage_def isLanguageModelUsage_def isImageModelUsage_def)
qed

text \<open>
  Witness for C5: language-model records with detail fields in two orders, and the
  language-model target of the tests against the embedding record \<open>{tokens: 5}\<close>.
\<close>

theorem accumulateUsage_commutes_and_skips_mismatch_witness:
  "same_shape (counts 1 2 3) detailed \<and> same_shape (counts 1 2 3) (counts 5 10 15) \<and>
   fst (accumulateAll (Some (counts 1 2 3)) [Some detailed, Some (counts 5 10 15)]) =
     fst (accumulateAll (Some (counts 1 2 3)) [Some (counts 5 10 15), Some detailed]) \<and>
   language_shape (emptyUsage\<lparr>inputTokens := Val 10\<rparr>) \<and>
   embedding_shape (emptyUsage\<lparr>tokens := Val 5\<rparr>) \<and>
   \<not> same_shape (emptyUsage\<lparr>inputTokens := Val 10\<rparr>) (emptyUsage\<lparr>tokens := Val 5\<rparr>) \<and>
   accumulateUsage (Some (emptyUsage\<lparr>inputTokens := Val 10\<rparr>)) (Some (emptyUsage\<lparr>tokens := Val 5\<rparr>)) =
     (Some (emptyUsage\<lparr>inputTokens := Val 10\<rparr>), [typeMismatchWarning])"
proof -
  have same: "same_shape (counts 1 2 3) detailed \<and> same_shape (counts 1 2 3) (counts 5 10 15)"
    by (simp add: same_shape_def language_shape_def isLanguageModelUsage_def counts_def
        detailed_def emptyUsage_def)
  have lang: "language_shape (emptyUsage\<lparr>inputTokens := Val 10\<rparr>)"
    by (simp add: language_shape_def isLanguageModelUsage_def emptyUsage_def)
  have emb: "embedding_shape (emptyUsage\<lparr>tokens := Val 5\<rparr>)"
    by (simp add: embedding_shape_def isEmbeddingModelUsage_def emptyUsage_def)
  have differ: "\<not> same_shape (emptyUsage\<lparr>inputTokens := Val 10\<rparr>) (emptyUsage\<lparr>tokens := Val 5\<rparr>)"
    by (simp add: same_shape_def language_shape_def image_shape_def embedding_shape_def
        isLanguageModelUsage_def isImageModelUsage_def isEmbeddingModelUsage_def emptyUsage_def)
  show ?thesis
    using same lang emb differ
      accumulateUsage_commutes_and_skips_mismatch [of "counts 1 2 3" detailed "counts 5 10 15"
        "emptyUsage\<lparr>inputTokens := Val 10\<rparr>"]
      accumulateUsage_commutes_and_skips_mismatch [of "emptyUsage\<lparr>inputTokens := Val 10\<rparr>"
        detailed detailed "emptyUsage\<lparr>tokens := Val 5\<rparr>"]
    by blast
qed

section \<open>C6: the held text-start\<close>

text \<open>
  C6, evaluated on a stream of two steps. The first step is plain text: its
  \<open>text-start\<close> is sent with the first delta, and \<open>hasStartedText\<close> is set. The second
  step is a tool use and nothing else: its \<open>text-start\<close> is held and never sent, no
  delta is sent, and its \<open>text-end\<close> is sent all the same, since \<open>hasStartedText\<close> is
  still set from the first step; the variable is cleared in \<open>flush\<close> only, when the
  stream ends.
\<close>

theorem text_end_of_a_later_step_is_sent_without_its_text_start:
  "map_option fst
     (readThrough False promptConfig (reader 1 promptConfig [resolver] ''openai'' searching)
        twoSteps None newTransformState streamContext) =
   Some [Start, StartStep, TextStart ''a'', TextDelta ''a'' ''Hello'', TextEnd ''a'',
         FinishStep (stepOf 4 1),
         StartStep, TextEnd ''b'', Other ''tool-call'', Other ''tool-result'',
         FinishStep \<lparr>finishReason = ''tool-calls'', rawFinishReason = JUndefined,
           response = JNull, stepUsage = Some (counts 6 9 15), providerMetadata = JUndefined\<rparr>,
         StartStep, TextStart ''t2'', TextDelta ''t2'' ''Found it.'', TextEnd ''t2'',
         FinishStep (stepOf 20 3),
         Finish ''stop'' (Some ((counts 30 13 43)
           \<lparr>usageReasoningTokens := Val 0, cachedInputTokens := Val 0\<rparr>))]"
  by code_simp

section \<open>C7: middlewares and the resolved model\<close>

text \<open>
  C7, as amended. Let the plugins leave the middleware list alone after the
  \<open>configureContext\<close> phase, and let the context hold a non-empty list \<open>ms\<close> after that
  phase. Let \<open>resolved\<close> be the resolved model: the handle, when the model parameter is
  a handle, and what the \<open>resolveModel\<close> hooks answer for the id, when it is a string.
  Then the model the executor is called with is: in the text method, \<open>resolved\<close> wrapped
  with \<open>ms\<close>, in the order of the list, whether the parameter was a string or a handle;
  in the streaming method, \<open>resolved\<close> wrapped with \<open>ms\<close> when the parameter was a
  handle; in the image method \<open>resolved\<close> itself, not wrapped, string or handle.
\<close>

theorem middlewares_wrap_the_model:
  assumes "keepsMiddlewares ps"
    and "executeConfigureContext (sortPlugins ps) (c0\<lparr>recursiveCall := Some params\<rparr>) = (Inr (), c1, l1)"
    and "middlewares c1 = Some ms" and "ms \<noteq> []"
    and "getProp params ''model'' = JModel resolved \<or>
         getProp params ''model'' = JStr mid \<and> resolvesOnlyTo ps mid resolved"
  shows "(\<forall>m p. ExecutorCall m p \<in> set (snd (snd (executeWithPlugins ps pid ex params (Some c0) now stamp))) \<longrightarrow>
            m = Wrapped resolved ms) \<and>
         (\<forall>m p. getProp params ''model'' = JModel resolved \<longrightarrow>
            ExecutorCall m p \<in> set (snd (snd (executeStreamWithPlugins ps pid ex params (Some c0) now stamp))) \<longrightarrow>
            m = Wrapped resolved ms) \<and>
         (\<forall>m p. ExecutorCall m p \<in> set (snd (snd (executeImageWithPlugins ps pid ex params (Some c0) now stamp))) \<longrightarrow>
            m = resolved)"
proof (intro conjI allI impI)
  fix m p
  assume "ExecutorCall m p \<in> set (snd (snd (executeWithPlugins ps pid ex params (Some c0) now stamp)))"
  from lifecycle_executor_model [OF assms(1,2) this [unfolded executeWithPlugins_def]]
  show "m = Wrapped resolved ms"
    using assms(3,4,5) by (auto simp: applyMiddlewares_def wrapLanguageModel_def)
next
  fix m p
  assume "getProp params ''model'' = JModel resolved"
    and "ExecutorCall m p \<in> set (snd (snd (executeStreamWithPlugins ps pid ex params (Some c0) now stamp)))"
  from this(1) lifecycle_executor_model [OF assms(1,2) this(2) [unfolded executeStreamWithPlugins_def]]
  show "m = Wrapped resolved ms"
    using assms(3,4) by (auto simp: applyMiddlewares_def wrapLanguageModel_def)
next
  fix m p
  assume "ExecutorCall m p \<in> set (snd (snd (executeImageWithPlugins ps pid ex params (Some c0) now stamp)))"
  from lifecycle_executor_model [OF assms(1,2) this [unfolded executeImageWithPlugins_def]]
  show "m = resolved"
    using assms(5) by (auto simp: applyMiddlewares_def)
qed

text \<open>
  Witness for C7: two plugins register one middleware each, the model is the string
  \<open>gpt-4\<close>, which the resolver answers with the model of that id. The text method hands
  the executor that model wrapped with both middlewares, the \<open>pre\<close> plugin's first; the
  image method hands it the model as resolved.
\<close>

theorem middlewares_wrap_the_model_witness:
  "keepsMiddlewares twoWriters \<and>
   executeConfigureContext (sortPlugins twoWriters) (textContext\<lparr>recursiveCall := Some textRequest\<rparr>) =
     (Inr (), textContext\<lparr>recursiveCall := Some textRequest, middlewares := Some [''first'', ''second'']\<rparr>,
      [ConfigureContextCall ''plugin-1'', ConfigureContextCall ''plugin-2'']) \<and>
   getProp textRequest ''model'' = JStr ''gpt-4'' \<and>
   resolvesOnlyTo twoWriters ''gpt-4'' (Model ''gpt-4'') \<and>
   snd (snd (executeWithPlugins twoWriters ''openai'' (answering ''ok'') textRequest
               (Some textContext) 0 ''k3j9'')) =
     [ConfigureContextCall ''plugin-1'', ConfigureContextCall ''plugin-2'',
      ResolveModelCall ''resolver'' ''gpt-4'',
      ExecutorCall (Wrapped (Model ''gpt-4'') [''first'', ''second'']) textRequest] \<and>
   snd (snd (executeImageWithPlugins twoWriters ''openai'' (answering ''ok'') textRequest
               (Some textContext) 0 ''k3j9'')) =
     [ConfigureContextCall ''plugin-1'', ConfigureContextCall ''plugin-2'',
      ResolveModelCall ''resolver'' ''gpt-4'',
      ExecutorCall (Model ''gpt-4'') textRequest]"
proof -
  have keep: "keepsMiddlewares twoWriters"
    by (simp add: keepsMiddlewares_def example_defs)
  have conf: "executeConfigureContext (sortPlugins twoWriters) (textContext\<lparr>recursiveCall := Some textRequest\<rparr>) =
     (Inr (), textContext\<lparr>recursiveCall := Some textRequest, middlewares := Some [''first'', ''second'']\<rparr>,
      [ConfigureContextCall ''plugin-1'', ConfigureContextCall ''plugin-2''])"
    by (simp add: engine_defs example_defs)
  have model: "getProp textRequest ''model'' = JStr ''gpt-4''"
    by (simp add: example_defs getProp_def)
  have only: "resolvesOnlyTo twoWriters ''gpt-4'' (Model ''gpt-4'')"
    by (auto simp: resolvesOnlyTo_def example_defs)
  have held: "middlewares (textContext\<lparr>recursiveCall := Some textRequest,
      middlewares := Some [''first'', ''second'']\<rparr>) = Some [''first'', ''second'']"
    by simp
  have some: "[''first'', ''second''] \<noteq> ([] :: string list)"
    by simp
  have text_log: "snd (snd (executeWithPlugins twoWriters ''openai'' (answering ''ok'') textRequest
               (Some textContext) 0 ''k3j9'')) =
     [ConfigureContextCall ''plugin-1'', ConfigureContextCall ''plugin-2'',
      ResolveModelCall ''resolver'' ''gpt-4'',
      ExecutorCall (Wrapped (Model ''gpt-4'') [''first'', ''second'']) textRequest]"
    by (simp add: engine_defs example_defs)
  have image_log: "snd (snd (executeImageWithPlugins twoWriters ''openai'' (answering ''ok'') textRequest
               (Some textContext) 0 ''k3j9'')) =
     [ConfigureContextCall ''plugin-1'', ConfigureContextCall ''plugin-2'',
      ResolveModelCall ''resolver'' ''gpt-4'',
      ExecutorCall (Model ''gpt-4'') textRequest]"
    by (simp add: engine_defs example_defs)
  note wrapped = middlewares_wrap_the_model [OF keep conf held some, of "Model ''gpt-4''" "''gpt-4''"
      "''openai''" "answering ''ok''" 0 "''k3j9''"]
  have "\<forall>m p. ExecutorCall m p \<in> set (snd (snd (executeWithPlugins twoWriters ''openai''
        (answering ''ok'') textRequest (Some textContext) 0 ''k3j9''))) \<longrightarrow>
      m = Wrapped (Model ''gpt-4'') [''first'', ''second'']"
    using wrapped model only by blast
  then show ?thesis
    using keep conf model only text_log image_log by simp
qed

text \<open>
  Counterexample to C7 as stated: the image method, with a handle as model and a plugin
  that registers a middleware. The context holds the middleware after
  \<open>configureContext\<close>, and the executor is called with the handle as it came.
\<close>

theorem image_model_is_not_wrapped:
  "middlewares (fst (snd (executeConfigureContext (sortPlugins [middlewareWriter ''w'' ''mw''])
      (imageContext\<lparr>recursiveCall := Some imageRequest\<rparr>)))) = Some [''mw''] \<and>
   snd (snd (executeImageWithPlugins [middlewareWriter ''w'' ''mw''] ''openai'' (answering ''ok'')
      imageRequest (Some imageContext) 0 ''k3j9'')) =
     [ConfigureContextCall ''w'', ExecutorCall (Model ''dall-e-3'') imageRequest]"
  by (simp add: engine_defs example_defs)

section \<open>C8: transformParams merges patches\<close>

lemma executeTransformParams_fold:
  "executeTransformParams ps initial c = (Inr final, c', l) \<Longrightarrow>
   final = foldl spread initial (returnedPatches l) \<and>
   transformParamsCallers l = map name (filter (\<lambda>p. transformParams p \<noteq> None) ps)"
proof (induction ps arbitrary: initial c l)
  case Nil
  then show ?case by simp
next
  case (Cons p ps)
  show ?case
  proof (cases "transformParams p")
    case None
    then show ?thesis using Cons by simp
  next
    case (Some hook)
    obtain out c1 where call: "hook initial c = (out, c1)" by (cases "hook initial c")
    show ?thesis
    proof (cases "settled out")
      case (Inl e)
      then show ?thesis using Cons.prems Some call by simp
    next
      case (Inr patch)
      obtain r2 c2 l2 where rest: "executeTransformParams ps (spread initial patch) c1 = (r2, c2, l2)"
        by (metis prod_cases3)
      have "r2 = Inr final" "l = TransformParamsCall (name p) initial (Some patch) # l2" "c2 = c'"
        using Cons.prems Some call Inr rest by simp_all
      then show ?thesis
        using Cons.IH [of "spread initial patch" c1 l2] rest Some by simp
    qed
  qed
qed

text \<open>
  C8, as amended: the merge is the object spread, not a deep merge. When no
  \<open>transformParams\<close> hook fails, the final parameter object is the spread, from the left
  and starting with the original parameters, of the patches the hooks returned; the hooks
  are those of the plugins that have one, asked in the order of the list the manager
  holds; and an empty patch leaves the value as it is.
\<close>

theorem transformParams_is_shallow_merge_in_order:
  assumes "executeTransformParams ps initial c = (Inr final, c', l)"
  shows "final = foldl spread initial (returnedPatches l) \<and>
         transformParamsCallers l = map name (filter (\<lambda>p. transformParams p \<noteq> None) ps) \<and>
         spread final [] = final"
  using executeTransformParams_fold [OF assms] by (simp add: spread_def)

text \<open>Witness for C8: three plugins, the second with an empty patch.\<close>

theorem transformParams_is_shallow_merge_witness:
  "executeTransformParams [patching ''a'' [(''temperature'', JNum 1)], patching ''b'' [],
       patching ''c'' googleOptions] optionsRequest textContext =
     (Inr [(''model'', JStr ''gpt-4''),
           (''providerOptions'', JObj [(''google'', JObj [(''safe'', JBool True)])]),
           (''temperature'', JNum 1)], textContext,
      [TransformParamsCall ''a'' optionsRequest (Some [(''temperature'', JNum 1)]),
       TransformParamsCall ''b'' (optionsRequest @ [(''temperature'', JNum 1)]) (Some []),
       TransformParamsCall ''c'' (optionsRequest @ [(''temperature'', JNum 1)]) (Some googleOptions)]) \<and>
   [(''model'', JStr ''gpt-4''),
    (''providerOptions'', JObj [(''google'', JObj [(''safe'', JBool True)])]),
    (''temperature'', JNum 1)] =
     foldl spread optionsRequest [[(''temperature'', JNum 1)], [], googleOptions]"
proof -
  have run: "executeTransformParams [patching ''a'' [(''temperature'', JNum 1)], patching ''b'' [],
       patching ''c'' googleOptions] optionsRequest textContext =
     (Inr [(''model'', JStr ''gpt-4''),
           (''providerOptions'', JObj [(''google'', JObj [(''safe'', JBool True)])]),
           (''temperature'', JNum 1)], textContext,
      [TransformParamsCall ''a'' optionsRequest (Some [(''temperature'', JNum 1)]),
       TransformParamsCall ''b'' (optionsRequest @ [(''temperature'', JNum 1)]) (Some []),
       TransformParamsCall ''c'' (optionsRequest @ [(''temperature'', JNum 1)]) (Some googleOptions)])"
    by (simp add: example_defs spread_def)
  from transformParams_is_shallow_merge_in_order [OF run] show ?thesis
    using run by simp
qed

text \<open>
  Counterexample to C8 as stated: a patch that holds \<open>providerOptions.google\<close>, over
  parameters that hold \<open>providerOptions.openai\<close>. The engine replaces the whole
  \<open>providerOptions\<close> object; a deep merge would keep both entries.
\<close>

theorem transformParams_is_not_deep_merge:
  "fst (executeTransformParams [patching ''c'' googleOptions] optionsRequest textContext) =
     Inr [(''model'', JStr ''gpt-4''),
          (''providerOptions'', JObj [(''google'', JObj [(''safe'', JBool True)])])] \<and>
   deepMerge optionsRequest googleOptions =
     [(''model'', JStr ''gpt-4''),
      (''providerOptions'', JObj [(''openai'', JObj [(''store'', JBool False)]),
                                  (''google'', JObj [(''safe'', JBool True)])])] \<and>
   fst (executeTransformParams [patching ''c'' googleOptions] optionsRequest textContext) \<noteq>
     Inr (deepMerge optionsRequest googleOptions)"
  by (simp add: example_defs spread_def)

section \<open>C9: the error path\<close>




text \<open>
  Which failure the caller gets when several \<open>onError\<close> hooks reject: the first in time.
  Here the hook of the first plugin rejects after a wait and the hook of the second at
  once; both are called, and the caller gets the failure of the second.
\<close>

lemma first_rejection_in_time_reaches_the_caller:
  "executeWithPlugins
       [resolver, slowBrokenObserver ''slow'' 2 (Error ''timed out''),
        brokenObserver ''watch'' (Error ''observer down'')] ''openai''
       (failing (Error ''boom'')) textRequest (Some textContext) 0 ''k3j9'' =
     (Inl (Error ''observer down''), textContext\<lparr>recursiveCall := Some textRequest\<rparr>,
      [ResolveModelCall ''resolver'' ''gpt-4'', ExecutorCall (Model ''gpt-4'') textRequest,
       OnErrorCall ''slow'' (Error ''boom''), OnErrorCall ''watch'' (Error ''boom'')])"
  by (simp add: engine_defs example_defs)

section \<open>C10: the system prompt in a recursive call\<close>

text \<open>
  C10. When the context is marked as a recursive call, the plugin's \<open>transformParams\<close>
  returns the parameters with their \<open>system\<close> entry as it came in, and the prompt builder
  has no part in the result (any other builder gives the same); the tools are separated
  all the same: the patch is the parameters with \<open>tools\<close> reduced to the provider tools,
  it is saved on the context, and the other tools are stored as \<open>mcpTools\<close>. Along a
  chain: the parameters of a recursive call are the closure's parameters with
  \<open>buildRecursiveParams\<close> spread over them, so their system prompt is the one saved on
  the context by the call before, and it goes through unchanged.
\<close>

theorem recursive_transformParams_keeps_the_system_prompt:
  "isRecursiveCall context \<Longrightarrow>
   (\<exists>patch c'.
      promptTransformParams config params context = (Resolved patch, c') \<and>
      promptTransformParams (config\<lparr>buildSystemPrompt := other\<rparr>) params context = (Resolved patch, c') \<and>
      map_of patch ''system'' = map_of params ''system'' \<and>
      (enabled config \<and> getProp params ''tools'' = JObj tools \<longrightarrow>
         patch = spread params [(''tools'', remainingTools (filter isProviderTool tools))] \<and>
         originalParams c' = patch \<and>
         mcpTools c' =
           (if filter (\<lambda>t. \<not> isProviderTool t) tools \<noteq> []
            then Some (filter (\<lambda>t. \<not> isProviderTool t) tools) else mcpTools context))) \<and>
   (distinct (map fst (originalParams context)) \<and>
    map_of (originalParams context) ''system'' = Some prompt \<longrightarrow>
      (\<exists>patch c'.
         promptTransformParams config
           (spread params (buildRecursiveParams context text results promptTools)) context =
             (Resolved patch, c') \<and>
         map_of patch ''system'' = Some prompt))"
proof (intro conjI impI)
  assume rec: "isRecursiveCall context"
  have general: "\<exists>patch c'.
      promptTransformParams config ps context = (Resolved patch, c') \<and>
      promptTransformParams (config\<lparr>buildSystemPrompt := b\<rparr>) ps context = (Resolved patch, c') \<and>
      map_of patch ''system'' = map_of ps ''system'' \<and>
      (enabled config \<and> getProp ps ''tools'' = JObj tools \<longrightarrow>
         patch = spread ps [(''tools'', remainingTools (filter isProviderTool tools))] \<and>
         originalParams c' = patch \<and>
         mcpTools c' =
           (if filter (\<lambda>t. \<not> isProviderTool t) tools \<noteq> []
            then Some (filter (\<lambda>t. \<not> isProviderTool t) tools) else mcpTools context))" for ps b
    using rec
    by (cases "enabled config"; cases "getProp ps ''tools''")
       (simp_all add: promptTransformParams_def Let_def map_of_spread_one)
  show "\<exists>patch c'.
      promptTransformParams config params context = (Resolved patch, c') \<and>
      promptTransformParams (config\<lparr>buildSystemPrompt := other\<rparr>) params context = (Resolved patch, c') \<and>
      map_of patch ''system'' = map_of params ''system'' \<and>
      (enabled config \<and> getProp params ''tools'' = JObj tools \<longrightarrow>
         patch = spread params [(''tools'', remainingTools (filter isProviderTool tools))] \<and>
         originalParams c' = patch \<and>
         mcpTools c' =
           (if filter (\<lambda>t. \<not> isProviderTool t) tools \<noteq> []
            then Some (filter (\<lambda>t. \<not> isProviderTool t) tools) else mcpTools context))"
    by (rule general)
  assume saved: "distinct (map fst (originalParams context)) \<and>
    map_of (originalParams context) ''system'' = Some prompt"
  let ?new = "buildRecursiveParams context text results promptTools"
  have "distinct (map fst ?new)" "map_of ?new ''system'' = Some prompt"
    using saved by (simp_all add: buildRecursiveParams_def Let_def distinct_spread map_of_spread_two)
  then have "map_of (spread params ?new) ''system'' = Some prompt"
    by (rule map_of_spread_present)
  then show "\<exists>patch c'.
         promptTransformParams config (spread params ?new) context = (Resolved patch, c') \<and>
         map_of patch ''system'' = Some prompt"
    using general [of "spread params ?new" other] by auto
qed



text \<open>
  Witness for C10: the first recursive call of a request with one prompt tool and one
  provider tool. The system prompt the top level built goes through as it is.
\<close>

theorem recursive_transformParams_keeps_the_system_prompt_witness:
  "isRecursiveCall recursiveContext \<and>
   enabled promptConfig \<and>
   getProp recursiveRequest ''tools'' = JObj [(''search'', JObj [(''description'', JStr ''web search'')])] \<and>
   distinct (map fst (originalParams recursiveContext)) \<and>
   map_of (originalParams recursiveContext) ''system'' = Some (JStr ''Be brief. Tools: search'') \<and>
   fst (promptTransformParams promptConfig recursiveRequest recursiveContext) =
     Resolved
       [(''model'', JStr ''gpt-4''), (''system'', JStr ''Be brief. Tools: search''),
        (''messages'', JArr [message ''assistant'' ''<tool_use>search</tool_use>'',
                            message ''user'' ''results of search'']),
        (''tools'', JUndefined)] \<and>
   mcpTools (snd (promptTransformParams promptConfig recursiveRequest recursiveContext)) =
     Some [(''search'', JObj [(''description'', JStr ''web search'')])]"
proof -
  have flag: "isRecursiveCall recursiveContext"
    by (simp add: recursiveContext_def)
  have saved: "originalParams recursiveContext =
      [(''model'', JStr ''gpt-4''), (''system'', JStr ''Be brief. Tools: search''),
       (''messages'', JArr []), (''tools'', JObj [(''web'', JObj [(''type'', JStr ''provider'')])])]"
    by code_simp
  have request: "recursiveRequest =
      [(''model'', JStr ''gpt-4''), (''system'', JStr ''Be brief. Tools: search''),
       (''messages'', JArr [message ''assistant'' ''<tool_use>search</tool_use>'',
                           message ''user'' ''results of search'']),
       (''tools'', JObj [(''search'', JObj [(''description'', JStr ''web search'')])])]"
    by code_simp
  have on: "enabled promptConfig"
    by (simp add: promptConfig_def)
  have tools: "getProp recursiveRequest ''tools'' =
      JObj [(''search'', JObj [(''description'', JStr ''web search'')])]"
    unfolding request by (simp add: getProp_def)
  have keys: "distinct (map fst (originalParams recursiveContext))"
    "map_of (originalParams recursiveContext) ''system'' = Some (JStr ''Be brief. Tools: search'')"
    unfolding saved by simp_all
  have separated:
    "filter (\<lambda>t. \<not> isProviderTool t) [(''search'', JObj [(''description'', JStr ''web search'')])] =
       [(''search'', JObj [(''description'', JStr ''web search'')])]"
    "filter isProviderTool [(''search'', JObj [(''description'', JStr ''web search'')])] = []"
    by (simp_all add: isProviderTool_def getProp_def)
  from recursive_transformParams_keeps_the_system_prompt
    [OF flag, of promptConfig recursiveRequest catalogue
       "[(''search'', JObj [(''description'', JStr ''web search'')])]"
       "JStr ''Be brief. Tools: search''" "''<tool_use>search</tool_use>''"
       "''results of search''" "[(''search'', JObj [(''description'', JStr ''web search'')])]"]
  show ?thesis
    using flag on tools keys separated
    by (auto simp: request spread_def remainingTools_def)
qed

section \<open>C3: the total usage of a request\<close>

lemma stepUsages_append: "stepUsages (xs @ ys) = stepUsages xs @ stepUsages ys"
  by (induction xs rule: stepUsages.induct) (auto split: option.splits)

lemma accumulateAll_Cons:
  "fst (accumulateAll t (s # ss)) = fst (accumulateAll (fst (accumulateUsage t s)) ss)"
  by (simp split: prod.splits)

lemma accumulateAll_append:
  "fst (accumulateAll t (a @ b)) = fst (accumulateAll (fst (accumulateAll t a)) b)"
proof (induction a arbitrary: t)
  case Nil
  then show ?case by simp
next
  case (Cons s a)
  have "fst (accumulateAll t ((s # a) @ b)) = fst (accumulateAll (fst (accumulateUsage t s)) (a @ b))"
    using accumulateAll_Cons [of t s "a @ b"] by simp
  then show ?case
    using Cons [of "fst (accumulateUsage t s)"] accumulateAll_Cons [of t s a] by simp
qed

lemma usageAfter_Nil [simp]: "usageAfter acc [] = acc"
  by (simp add: usageAfter_def)

lemma usageAfter_append: "usageAfter acc (xs @ ys) = usageAfter (usageAfter acc xs) ys"
  by (simp add: usageAfter_def stepUsages_append accumulateAll_append)

lemma usageAfter_Cons: "usageAfter acc (x # xs) = usageAfter (usageAfter acc [x]) xs"
  using usageAfter_append [of acc "[x]" xs] by simp

lemma usageAfter_plain: "stepUsages xs = [] \<Longrightarrow> usageAfter acc xs = acc"
  by (simp add: usageAfter_def)

lemma usageAfter_Some: "acc \<noteq> None \<Longrightarrow> usageAfter acc xs \<noteq> None"
proof -
  have "t \<noteq> None \<Longrightarrow> fst (accumulateAll t us) \<noteq> None" for t us
  proof (induction us arbitrary: t)
    case Nil
    then show ?case by simp
  next
    case (Cons s us)
    have "fst (accumulateUsage t s) \<noteq> None"
      using Cons.prems by (cases t; cases s) (auto simp: accumulateUsage_def)
    then show ?case
      using Cons.IH [of "fst (accumulateUsage t s)"] accumulateAll_Cons [of t s us] by simp
  qed
  then show "acc \<noteq> None \<Longrightarrow> usageAfter acc xs \<noteq> None"
    by (simp add: usageAfter_def)
qed

lemma finishesCarry_append:
  "finishesCarry acc (xs @ ys) \<longleftrightarrow> finishesCarry acc xs \<and> finishesCarry (usageAfter acc xs) ys"
proof (induction acc xs rule: finishesCarry.induct)
  case (1 acc)
  then show ?case by simp
next
  case (2 acc reason totalUsage parts)
  have "usageAfter acc (Finish reason totalUsage # parts) = usageAfter acc parts"
    by (simp add: usageAfter_def)
  then show ?case using 2 by auto
qed (simp_all add: usageAfter_Cons [symmetric])

lemma finishesCarry_noFinish: "\<not> list_ex isFinish xs \<Longrightarrow> finishesCarry acc xs"
  by (induction acc xs rule: finishesCarry.induct) simp_all

lemma finishesCarry_at:
  "finishesCarry acc (before @ Finish reason totalUsage # later) \<Longrightarrow>
   totalUsage = usageAfter acc before"
  by (simp add: finishesCarry_append)

lemma accumulateStep_usage:
  "accumulatedUsage (accumulateStep fs c) = usageAfter (accumulatedUsage c) [FinishStep fs]"
  by (cases "stepUsage fs"; cases "accumulatedUsage c")
     (auto simp: accumulateStep_def usageAfter_def accumulateUsage_def split: prod.splits)

lemma accumulateStep_mcpTools [simp]: "mcpTools (accumulateStep fs c) = mcpTools c"
  by (simp add: accumulateStep_def)

lemma forwardText_plain:
  "holdsTextStart st \<Longrightarrow> forwardText i rs st = (out, st') \<Longrightarrow>
   holdsTextStart st' \<and> stepUsages out = [] \<and> \<not> list_ex isFinish out"
proof (induction rs arbitrary: st out st')
  case Nil
  then show ?case by simp
next
  case (Cons r rs)
  show ?case
  proof (cases "\<not> isTagContent r \<and> content r \<noteq> []")
    case False
    then show ?thesis using Cons by auto
  next
    case True
    show ?thesis
    proof (cases "\<not> hasStartedText st \<and> pendingTextStart st \<noteq> None")
      case sends: True
      then obtain held where held: "pendingTextStart st = Some held" by auto
      then obtain j where j: "held = TextStart j"
        using Cons.prems(1) by (cases held) (simp_all add: holdsTextStart_def)
      obtain out2 st2 where rest:
        "forwardText i rs (st\<lparr>hasStartedText := True, pendingTextStart := None\<rparr>) = (out2, st2)"
        by (cases "forwardText i rs (st\<lparr>hasStartedText := True, pendingTextStart := None\<rparr>)")
      have "holdsTextStart (st\<lparr>hasStartedText := True, pendingTextStart := None\<rparr>)"
        by (simp add: holdsTextStart_def)
      from Cons.IH [OF this rest]
      show ?thesis
        using Cons.prems(2) True sends held j rest by auto
    next
      case False
      obtain out2 st2 where rest: "forwardText i rs st = (out2, st2)"
        by (cases "forwardText i rs st")
      from Cons.IH [OF Cons.prems(1) rest]
      show ?thesis
        using Cons.prems(2) True False rest
        by (cases "hasStartedText st"; cases "pendingTextStart st") auto
    qed
  qed
qed

lemma pipeRecursiveStream_plain:
  "\<not> list_ex isFinish (fst (pipeRecursiveStream parts err))"
  by (induction parts) (auto split: prod.splits)

lemma pipeRecursiveStream_usages:
  "stepUsages (fst (pipeRecursiveStream parts err)) =
     stepUsages (takeWhile (\<lambda>v. \<not> isFinish v) parts)"
proof (induction parts)
  case Nil
  then show ?case by simp
next
  case (Cons v vs)
  then show ?case
    by (cases v) (auto split: prod.splits option.splits)
qed

lemma accumulating_accumulateStep:
  "accumulating c \<Longrightarrow> accumulating (accumulateStep fs c)"
  using usageAfter_Some [of "accumulatedUsage c" "[FinishStep fs]"]
  by (simp add: accumulating_def accumulateStep_usage)

lemma handleRecursiveCall_accumulates:
  assumes "recursionAccumulates recur" "accumulating c"
    and "handleRecursiveCall recur recursiveParams c = Some (piped, e, c')"
  shows "accumulating c' \<and> accumulatedUsage c' = usageAfter (accumulatedUsage c) piped \<and>
         \<not> list_ex isFinish piped"
proof -
  let ?c = "c\<lparr>hasExecutedToolsInCurrentStep := False\<rparr>"
  have start: "accumulating ?c" "accumulatedUsage ?c = accumulatedUsage c"
    using assms(2) by (simp_all add: accumulating_def)
  obtain r c1 where call: "recur recursiveParams ?c = Some (r, c1)"
    using assms(3) by (cases "recur recursiveParams ?c") (auto simp: handleRecursiveCall_def)
  have after: "accumulating c1" "accumulatedUsage c1 = usageAfter (accumulatedUsage c) (pipedParts r)"
    using assms(1) start call unfolding recursionAccumulates_def by metis+
  have "c' = c1 \<and> piped = pipedParts r"
    using assms(3) call
    by (auto simp: handleRecursiveCall_def pipedParts_def split: sum.splits option.splits prod.splits)
  moreover have "\<not> list_ex isFinish (pipedParts r)"
    using pipeRecursiveStream_plain by (auto simp: pipedParts_def split: sum.splits option.splits)
  ultimately show ?thesis
    using after by simp
qed

lemma transformChunk_accumulates:
  assumes recur: "recursionAccumulates recur" and c: "accumulating c" and st: "holdsTextStart st"
    and run: "transformChunk config recur part st c = Some (out, e, st', c')"
  shows "accumulating c' \<and> holdsTextStart st' \<and>
         accumulatedUsage c' = usageAfter (accumulatedUsage c) out \<and>
         finishesCarry (accumulatedUsage c) out \<and>
         (list_ex isFinish out \<longrightarrow> stepUsages out = [] \<and> e = None)"
proof (cases part)
  case Start
  then show ?thesis using run c st by (auto simp: transformChunk_def usageAfter_def)
next
  case StartStep
  then show ?thesis using run c st by (auto simp: transformChunk_def usageAfter_def)
next
  case (TextStart i)
  then show ?thesis using run c st by (auto simp: transformChunk_def holdsTextStart_def)
next
  case (TextDelta i delta)
  obtain rs extractor where ex: "processText config (tagExtractor st) delta = (rs, extractor)"
    by (cases "processText config (tagExtractor st) delta")
  obtain out2 st2 where fw: "forwardText i rs
      (st\<lparr>textBuffer := textBuffer st @ delta, tagExtractor := extractor\<rparr>) = (out2, st2)"
    by (cases "forwardText i rs (st\<lparr>textBuffer := textBuffer st @ delta, tagExtractor := extractor\<rparr>)")
  have "holdsTextStart (st\<lparr>textBuffer := textBuffer st @ delta, tagExtractor := extractor\<rparr>)"
    using st by (simp add: holdsTextStart_def)
  from forwardText_plain [OF this fw]
  have plain: "holdsTextStart st2" "stepUsages out2 = []" "\<not> list_ex isFinish out2"
    by simp_all
  have "out = out2" "st' = st2" "c' = c" "e = None"
    using run TextDelta ex fw by (simp_all add: transformChunk_def)
  then show ?thesis
    using plain c by (simp add: usageAfter_plain finishesCarry_noFinish)
next
  case (TextEnd i)
  then show ?thesis using run c st by (auto simp: transformChunk_def usageAfter_def)
next
  case (FinishStep fs)
  show ?thesis
  proof (cases "validToolUses config (textBuffer st) c \<noteq> []")
    case False
    then have "out = [FinishStep fs]" "c' = accumulateStep fs c" "st' = st\<lparr>textBuffer := []\<rparr>"
      using run FinishStep by (simp_all add: transformChunk_def)
    then show ?thesis
      using c st accumulating_accumulateStep [OF c, of fs]
      by (simp add: accumulateStep_usage holdsTextStart_def)
  next
    case True
    define tools where "tools = (case mcpTools c of Some ts \<Rightarrow> ts | None \<Rightarrow> [])"
    obtain sent executedResults c1 where step:
      "toolCallsStep config fs (validToolUses config (textBuffer st) c) tools c =
         (sent, executedResults, c1)"
      by (metis prod_cases3)
    obtain executed enqueued where tools_run:
      "executeTools config (validToolUses config (textBuffer st) c) tools = (executed, enqueued)"
      by (cases "executeTools config (validToolUses config (textBuffer st) c) tools")
    have sent: "sent = map Other enqueued @
        [FinishStep \<lparr>finishReason = ''tool-calls'', rawFinishReason = JUndefined,
           response = response fs, stepUsage = stepUsage fs, providerMetadata = providerMetadata fs\<rparr>]"
      and c1: "c1 = accumulateStep fs (c\<lparr>hasExecutedToolsInCurrentStep := True\<rparr>)"
      using step tools_run by (simp_all add: toolCallsStep_def sendStepFinishEvent_def)
    have marked: "accumulating (c\<lparr>hasExecutedToolsInCurrentStep := True\<rparr>)"
      using c by (simp add: accumulating_def)
    have c1_acc: "accumulating c1"
      unfolding c1 by (rule accumulating_accumulateStep [OF marked])
    have others: "stepUsages (map Other enqueued) = []" "\<not> list_ex isFinish (map Other enqueued)"
      by (induction enqueued) simp_all
    have c1_usage: "accumulatedUsage c1 = usageAfter (accumulatedUsage c) sent"
      unfolding c1 sent
      by (simp add: accumulateStep_usage usageAfter_def stepUsages_append others)
    obtain piped e2 c2 where rec: "handleRecursiveCall recur
        (buildRecursiveParams c1 (textBuffer st) (formatToolResults config executedResults) tools) c1 =
          Some (piped, e2, c2)"
      using run FinishStep True step
      by (auto simp: transformChunk_def tools_def split: option.splits)
    have res: "out = sent @ piped" "c' = c2" "st' = st" "e = e2"
      using run FinishStep True step rec by (simp_all add: transformChunk_def tools_def)
    from handleRecursiveCall_accumulates [OF recur c1_acc rec]
    have after: "accumulating c2" "accumulatedUsage c2 = usageAfter (accumulatedUsage c1) piped"
      "\<not> list_ex isFinish piped"
      by simp_all
    have nofinish: "\<not> list_ex isFinish (sent @ piped)"
      using after(3) others(2) sent by simp
    show ?thesis
      using res after st c1_usage nofinish
      by (simp add: usageAfter_append finishesCarry_noFinish del: list_ex_append)
  qed
next
  case (Finish reason totalUsage)
  then show ?thesis using run c st by (auto simp: transformChunk_def usageAfter_def)
next
  case (Other t)
  then show ?thesis using run c st by (auto simp: transformChunk_def usageAfter_def)
qed

lemma usageAfter_upto_finish:
  "stepUsages (takeWhile (\<lambda>v. \<not> isFinish v) (xs @ ys)) =
     (if list_ex isFinish xs then stepUsages (takeWhile (\<lambda>v. \<not> isFinish v) xs)
      else stepUsages xs @ stepUsages (takeWhile (\<lambda>v. \<not> isFinish v) ys))"
  by (induction xs rule: stepUsages.induct) (auto split: option.splits)

lemma takeWhile_noFinish:
  "\<not> list_ex isFinish xs \<Longrightarrow> takeWhile (\<lambda>v. \<not> isFinish v) xs = xs"
  by (induction xs) auto

lemma readThrough_accumulates:
  assumes recur: "recursionAccumulates recur"
  shows "accumulating c \<Longrightarrow> holdsTextStart st \<Longrightarrow>
     readThrough stop config recur parts err st c = Some (out, e, c') \<Longrightarrow>
     accumulating c' \<and> accumulatedUsage c' = usageAfter (accumulatedUsage c) out \<and>
     finishesCarry (accumulatedUsage c) out \<and>
     (stop \<longrightarrow> stepUsages (takeWhile (\<lambda>v. \<not> isFinish v) out) = stepUsages out)"
proof (induction parts arbitrary: st c out e c')
  case Nil
  then show ?case by simp
next
  case (Cons part parts)
  obtain out1 e1 st1 c1 where one: "transformChunk config recur part st c = Some (out1, e1, st1, c1)"
    using Cons.prems(3) by (cases "transformChunk config recur part st c") auto
  from transformChunk_accumulates [OF recur Cons.prems(1,2) one]
  have inv: "accumulating c1" "holdsTextStart st1"
    "accumulatedUsage c1 = usageAfter (accumulatedUsage c) out1"
    "finishesCarry (accumulatedUsage c) out1"
    "list_ex isFinish out1 \<longrightarrow> stepUsages out1 = [] \<and> e1 = None"
    by simp_all
  have cut1: "stepUsages (takeWhile (\<lambda>v. \<not> isFinish v) out1) = stepUsages out1"
  proof (cases "list_ex isFinish out1")
    case True
    have "stepUsages (takeWhile P xs) = []" if "stepUsages xs = []" for P xs
      using that by (induction xs rule: stepUsages.induct) (auto split: option.splits if_splits)
    then show ?thesis using inv(5) True by simp
  next
    case False
    then show ?thesis by (simp add: takeWhile_noFinish)
  qed
  show ?case
  proof (cases "e1 \<noteq> None \<or> (stop \<and> list_ex isFinish out1)")
    case True
    then have "out = out1" "c' = c1"
      using Cons.prems(3) one by (cases e1; auto)+
    then show ?thesis using inv cut1 by simp
  next
    case False
    then have e1: "e1 = None" by simp
    obtain later e2 c2 where rest: "readThrough stop config recur parts err st1 c1 = Some (later, e2, c2)"
      using Cons.prems(3) one False e1
      by (cases "readThrough stop config recur parts err st1 c1") auto
    have res: "out = out1 @ later" "c' = c2"
      using Cons.prems(3) one False e1 rest by auto
    from Cons.IH [OF inv(1,2) rest]
    have ih: "accumulating c2" "accumulatedUsage c2 = usageAfter (accumulatedUsage c1) later"
      "finishesCarry (accumulatedUsage c1) later"
      "stop \<longrightarrow> stepUsages (takeWhile (\<lambda>v. \<not> isFinish v) later) = stepUsages later"
      by simp_all
    have "stop \<longrightarrow> stepUsages (takeWhile (\<lambda>v. \<not> isFinish v) (out1 @ later)) =
        stepUsages (out1 @ later)"
      using False ih(4) by (auto simp: usageAfter_upto_finish stepUsages_append)
    then show ?thesis
      using res ih inv by (simp add: usageAfter_append finishesCarry_append)
  qed
qed

lemma newTransform_accumulating:
  "accumulating c \<Longrightarrow> \<exists>st. newTransform config c = (Some st, c) \<and> holdsTextStart st"
  by (auto simp: accumulating_def newTransform_def holdsTextStart_def)

lemma reader_accumulates:
  assumes others: "leavesUsageAlone others"
  shows "recursionAccumulates (reader n config others pid provider)"
proof (induction n)
  case 0
  show ?case by (simp add: recursionAccumulates_def)
next
  case (Suc n)
  show ?case
    unfolding recursionAccumulates_def
  proof (intro allI impI)
    fix newParams c r c'
    assume c: "accumulating c"
      and run: "reader (Suc n) config others pid provider newParams c = Some (r, c')"
    let ?plugins = "promptToolUsePlugin config # others"
    obtain r0 c1 l where call:
      "callRecursive StreamText ?plugins pid (streamExecutor provider) newParams c = (r0, c1, l)"
      by (metis prod_cases3)
    have "accumulatedUsage c = accumulatedUsage c \<and> mcpTools c \<noteq> None"
      using c by (simp add: accumulating_def)
    from callRecursive_keeps [OF hooksKeep_usage(1) [OF others] this _ _ _ call]
    have c1: "accumulatedUsage c1 = accumulatedUsage c" "accumulating c1"
      using c by (simp_all add: accumulating_def)
    show "accumulating c' \<and> accumulatedUsage c' = usageAfter (accumulatedUsage c) (pipedParts r)"
    proof (cases r0)
      case (Inl e)
      then have "r = Inl e" "c' = c1" using run call by simp_all
      then show ?thesis using c1 by (simp add: pipedParts_def)
    next
      case (Inr result)
      show ?thesis
      proof (cases result)
        case None
        then have "r = Inr None" "c' = c1" using run call Inr by simp_all
        then show ?thesis using c1 by (simp add: pipedParts_def)
      next
        case (Some raw)
        obtain st where st: "newTransform config c1 = (Some st, c1)" "holdsTextStart st"
          using newTransform_accumulating [OF c1(2)] by blast
        obtain out e c2 where read:
          "readThrough True config (reader n config others pid provider) (fst raw) (snd raw) st c1 =
             Some (out, e, c2)"
          using run call Inr Some st(1)
          by (cases "readThrough True config (reader n config others pid provider) (fst raw) (snd raw) st c1")
             (auto simp: readResult_def)
        have res: "r = Inr (Some (out, e))" "c' = c2"
          using run call Inr Some st(1) read by (simp_all add: readResult_def)
        from readThrough_accumulates [OF Suc c1(2) st(2) read]
        have inv: "accumulating c2" "accumulatedUsage c2 = usageAfter (accumulatedUsage c1) out"
          "stepUsages (takeWhile (\<lambda>v. \<not> isFinish v) out) = stepUsages out"
          by simp_all
        have "usageAfter (accumulatedUsage c) (pipedParts r) = usageAfter (accumulatedUsage c) out"
          using res(1) inv(3) by (simp add: pipedParts_def usageAfter_def pipeRecursiveStream_usages)
        then show ?thesis
          using res inv c1 by simp
      qed
    qed
  qed
qed

lemma sumInputTokenDetails_counts:
  "k \<in> {NoCacheTokens, CacheReadTokens, CacheWriteTokens} \<Longrightarrow>
   tokenCountOf k (t\<lparr>inputTokenDetails := sumInputTokenDetails (inputTokenDetails a) (inputTokenDetails s)\<rparr>) =
     tokenCountOf k a + tokenCountOf k s"
  by (cases "inputTokenDetails a"; cases "inputTokenDetails s")
     (auto simp: newInputTokenDetails_def Let_def)

lemma sumOutputTokenDetails_counts:
  "k \<in> {TextTokens, ReasoningTokens} \<Longrightarrow>
   tokenCountOf k (t\<lparr>outputTokenDetails := sumOutputTokenDetails (outputTokenDetails a) (outputTokenDetails s)\<rparr>) =
     tokenCountOf k a + tokenCountOf k s"
  by (cases "outputTokenDetails a"; cases "outputTokenDetails s")
     (auto simp: newOutputTokenDetails_def Let_def)

lemma addLanguageUsage_counts:
  "tokenCountOf k (addLanguageUsage a s) = tokenCountOf k a + tokenCountOf k s"
proof (cases k)
  case NoCacheTokens
  then show ?thesis
    using sumInputTokenDetails_counts [where k = k and a = a and s = s]
    by (simp add: addLanguageUsage_def addTokenCounts_def)
next
  case CacheReadTokens
  then show ?thesis
    using sumInputTokenDetails_counts [where k = k and a = a and s = s]
    by (simp add: addLanguageUsage_def addTokenCounts_def)
next
  case CacheWriteTokens
  then show ?thesis
    using sumInputTokenDetails_counts [where k = k and a = a and s = s]
    by (simp add: addLanguageUsage_def addTokenCounts_def)
next
  case TextTokens
  then show ?thesis
    using sumOutputTokenDetails_counts [where k = k and a = a and s = s]
    by (simp add: addLanguageUsage_def addTokenCounts_def)
next
  case ReasoningTokens
  then show ?thesis
    using sumOutputTokenDetails_counts [where k = k and a = a and s = s]
    by (simp add: addLanguageUsage_def addTokenCounts_def)
qed (simp_all add: addLanguageUsage_def addTokenCounts_def)

lemma accumulateUsage_counts:
  assumes "inputTokens a \<noteq> Absent"
  shows "\<exists>a'. fst (accumulateUsage (Some a) (Some s)) = Some a' \<and> inputTokens a' \<noteq> Absent \<and>
     (topLevelCount k \<or> isLanguageModelUsage s \<longrightarrow>
        tokenCountOf k a' = tokenCountOf k a + tokenCountOf k s)"
proof (cases "isLanguageModelUsage s")
  case True
  have "isLanguageModelUsage a" using assms by (simp add: isLanguageModelUsage_def)
  then have "fst (accumulateUsage (Some a) (Some s)) = Some (addLanguageUsage a s)"
    using True by (simp add: accumulateUsage_def)
  moreover have "inputTokens (addLanguageUsage a s) \<noteq> Absent"
    by (simp add: addLanguageUsage_def addTokenCounts_def)
  ultimately show ?thesis
    by (simp add: addLanguageUsage_counts)
next
  case False
  then have none: "inputTokens s = Absent" "outputTokens s = Absent" "totalTokens s = Absent"
    by (simp_all add: isLanguageModelUsage_def)
  have "fst (accumulateUsage (Some a) (Some s)) = Some a"
    using False assms none
    by (simp add: accumulateUsage_def isImageModelUsage_def isEmbeddingModelUsage_def)
  moreover have "topLevelCount k \<Longrightarrow> tokenCountOf k s = 0"
    using none by (auto simp: topLevelCount_def)
  ultimately show ?thesis
    using assms False by auto
qed

lemma accumulateAll_counts:
  "inputTokens a \<noteq> Absent \<Longrightarrow>
   \<exists>a'. fst (accumulateAll (Some a) (map Some us)) = Some a' \<and>
     (topLevelCount k \<or> list_all isLanguageModelUsage us \<longrightarrow>
        tokenCountOf k a' = tokenCountOf k a + sum_list (map (tokenCountOf k) us))"
proof (induction us arbitrary: a)
  case Nil
  then show ?case by simp
next
  case (Cons s us)
  obtain a1 where a1: "fst (accumulateUsage (Some a) (Some s)) = Some a1" "inputTokens a1 \<noteq> Absent"
    "topLevelCount k \<or> isLanguageModelUsage s \<longrightarrow>
       tokenCountOf k a1 = tokenCountOf k a + tokenCountOf k s"
    using accumulateUsage_counts [OF Cons.prems, of s k] by blast
  obtain a2 where a2: "fst (accumulateAll (Some a1) (map Some us)) = Some a2"
    "topLevelCount k \<or> list_all isLanguageModelUsage us \<longrightarrow>
       tokenCountOf k a2 = tokenCountOf k a1 + sum_list (map (tokenCountOf k) us)"
    using Cons.IH [OF a1(2)] by blast
  have "fst (accumulateAll (Some a) (map Some (s # us))) = Some a2"
    using accumulateAll_Cons [of "Some a" "Some s" "map Some us"] a1(1) a2(1) by simp
  then show ?case
    using a1(3) a2(2) by auto
qed

lemma usageAfter_zero_counts:
  "\<exists>u. usageAfter (Some zeroUsage) parts = Some u \<and>
     (\<forall>k. topLevelCount k \<or> list_all isLanguageModelUsage (stepUsages parts) \<longrightarrow>
        tokenCountOf k u = sum_list (map (tokenCountOf k) (stepUsages parts)))"
proof -
  obtain u where u: "usageAfter (Some zeroUsage) parts = Some u"
    using usageAfter_Some [of "Some zeroUsage" parts] by auto
  have "tokenCountOf k u = sum_list (map (tokenCountOf k) (stepUsages parts))"
    if "topLevelCount k \<or> list_all isLanguageModelUsage (stepUsages parts)" for k
  proof -
    have "inputTokens zeroUsage \<noteq> Absent" "tokenCountOf k zeroUsage = 0"
      by (cases k; simp add: zeroUsage_def emptyUsage_def)+
    then show ?thesis
      using accumulateAll_counts [of zeroUsage "stepUsages parts" k] u that
      by (auto simp: usageAfter_def)
  qed
  then show ?thesis
    using u by blast
qed

lemma lifecycle_new_context:
  "lifecycle shape ps pid ex params None now stamp =
     lifecycle shape ps pid ex params
       (Some (createContext pid (getProp params ''model'') params now stamp)) now stamp"
  by (simp add: lifecycle_def Let_def)

text \<open>
  C3. A request is made with the prompt-tool-use plugin; the other plugins write neither
  \<open>accumulatedUsage\<close> nor \<open>mcpTools\<close>; the request's stream has been read to its end
  and the context holds prompt tools, so the stream ran through the plugin's transform.
  A \<open>finish\<close> part is sent on with the accumulator of the context as its total usage;
  and for every \<open>finish\<close> part the consumer gets, that is the accumulator after all the
  \<open>finish-step\<close> parts the consumer got before it, those of the nested requests
  included: \<open>accumulateUsage\<close> called on the new accumulator with the usage of each of
  them in turn. Its \<open>inputTokens\<close>, \<open>outputTokens\<close> and \<open>totalTokens\<close> are the sums of
  those of the steps, and so are the counts of the token details when every step's
  usage has one of these three keys.
\<close>

theorem finish_carries_the_usage_of_all_steps:
  assumes others: "leavesUsageAlone others"
    and run: "streamRequest fuel config others pid provider params now stamp = Some (Inr (out, err), c)"
    and active: "mcpTools c \<noteq> None"
    and at: "out = before @ Finish reason totalUsage # later"
  shows "transformChunk config recur (Finish reason' given) st c0 =
           Some ([Finish reason' (accumulatedUsage c0)], None, st, c0) \<and>
         totalUsage = usageAfter (Some zeroUsage) before \<and>
         (\<exists>u. totalUsage = Some u \<and>
            (\<forall>k. topLevelCount k \<or> list_all isLanguageModelUsage (stepUsages before) \<longrightarrow>
               tokenCountOf k u = sum_list (map (tokenCountOf k) (stepUsages before))))"
proof -
  let ?plugins = "promptToolUsePlugin config # others"
  let ?new = "createContext pid (getProp params ''model'') params now stamp"
  obtain r0 c1 l where entered:
    "lifecycle StreamText ?plugins pid (streamExecutor provider) params (Some ?new) now stamp = (r0, c1, l)"
    by (metis prod_cases3)
  have "accumulatedUsage ?new = None"
    by (simp add: createContext_def)
  from lifecycle_keeps [OF hooksKeep_usage(2) [OF others] this _ entered]
  have none: "accumulatedUsage c1 = None"
    by simp
  obtain raw where raw: "r0 = Inr raw"
    using run entered
    by (cases r0) (auto simp: streamRequest_def executeStreamWithPlugins_def lifecycle_new_context)
  obtain s where read: "readResult False config (reader fuel config others pid provider) raw c1 = Some (s, c)"
    and s: "s = (out, err)"
    using run entered raw
    by (auto simp: streamRequest_def executeStreamWithPlugins_def lifecycle_new_context
        split: option.splits)
  obtain tools where tools: "mcpTools c1 = Some tools"
    using read active by (cases "mcpTools c1") (auto simp: readResult_def newTransform_def)
  let ?st = "\<lparr>textBuffer = [], pendingTextStart = None, hasStartedText = False,
    tagExtractor = newExtractor config\<rparr>"
  let ?c = "c1\<lparr>accumulatedUsage := Some zeroUsage\<rparr>"
  have new: "newTransform config c1 = (Some ?st, ?c)"
    using tools none by (simp add: newTransform_def)
  have start: "accumulating ?c" "holdsTextStart ?st"
    using tools by (simp_all add: accumulating_def holdsTextStart_def)
  have through: "readThrough False config (reader fuel config others pid provider) (fst raw) (snd raw)
      ?st ?c = Some (out, err, c)"
    using read s new by (auto simp: readResult_def split: option.splits)
  from readThrough_accumulates [OF reader_accumulates [OF others] start through]
  have "finishesCarry (Some zeroUsage) out"
    by simp
  then have total: "totalUsage = usageAfter (Some zeroUsage) before"
    unfolding at by (rule finishesCarry_at)
  have "transformChunk config recur (Finish reason' given) st c0 =
      Some ([Finish reason' (accumulatedUsage c0)], None, st, c0)"
    by (simp add: transformChunk_def)
  then show ?thesis
    using total usageAfter_zero_counts [of before] by simp
qed

text \<open>
  Witness for C3: the request whose model asks for \<open>search\<close> once. The consumer gets
  the step of the top level (10, 5 and 15 tokens) and the step of the nested request
  (20, 3 and 23 tokens); the \<open>finish\<close> part carries 30, 8 and 38.
\<close>

theorem finish_carries_the_usage_of_all_steps_witness:
  "leavesUsageAlone [resolver :: (stream, unit) plugin] \<and>
   map_option (\<lambda>(r, c). (r, mcpTools c))
     (streamRequest 1 promptConfig [resolver] ''openai'' searching toolRequest 0 ''k3j9'') =
     Some (Inr (searchedParts @ [Finish ''stop'' (Some searchedUsage)], None),
           Some [(''search'', JObj [(''description'', JStr ''web search'')])]) \<and>
   usageAfter (Some zeroUsage) searchedParts = Some searchedUsage \<and>
   map (\<lambda>k. tokenCountOf k searchedUsage) [InputTokens, OutputTokens, TotalTokens] =
     map (\<lambda>k. sum_list (map (tokenCountOf k) (stepUsages searchedParts)))
       [InputTokens, OutputTokens, TotalTokens] \<and>
   map (\<lambda>k. sum_list (map (tokenCountOf k) (stepUsages searchedParts)))
     [InputTokens, OutputTokens, TotalTokens] = [10 + 20, 5 + 3, 15 + 23]"
proof -
  have others: "leavesUsageAlone [resolver :: (stream, unit) plugin]"
    by (simp add: leavesUsageAlone_def hooksLeave_def resolver_def emptyPlugin_def)
  have val: "map_option (\<lambda>(r, c). (r, mcpTools c))
     (streamRequest 1 promptConfig [resolver] ''openai'' searching toolRequest 0 ''k3j9'') =
     Some (Inr (searchedParts @ [Finish ''stop'' (Some searchedUsage)], None),
           Some [(''search'', JObj [(''description'', JStr ''web search'')])])"
    by code_simp
  then obtain c where run:
    "streamRequest 1 promptConfig [resolver] ''openai'' searching toolRequest 0 ''k3j9'' =
       Some (Inr (searchedParts @ [Finish ''stop'' (Some searchedUsage)], None), c)"
    and active: "mcpTools c \<noteq> None"
    by auto
  have sums: "map (\<lambda>k. sum_list (map (tokenCountOf k) (stepUsages searchedParts)))
     [InputTokens, OutputTokens, TotalTokens] = [10 + 20, 5 + 3, 15 + 23]"
    by code_simp
  have top: "topLevelCount InputTokens" "topLevelCount OutputTokens" "topLevelCount TotalTokens"
    by (simp_all add: topLevelCount_def)
  note carried = finish_carries_the_usage_of_all_steps [OF others run active,
      of searchedParts "''stop''" "Some searchedUsage" "[]", simplified]
  have total: "usageAfter (Some zeroUsage) searchedParts = Some searchedUsage"
    using carried by simp
  have each: "tokenCountOf k searchedUsage = sum_list (map (tokenCountOf k) (stepUsages searchedParts))"
    if "topLevelCount k" for k
    using carried that by blast
  show ?thesis
    using others val sums total each [OF top(1)] each [OF top(2)] each [OF top(3)] by simp
qed

section \<open>C1: the recursive call\<close>

text \<open>
  C1, as amended. Let the context hold the closure that captured the parameters \<open>base\<close>.
  Below the limit, \<open>context.recursiveCall(newParams)\<close> is the method itself, run on the
  same context with depth plus one and the recursive flag set, on \<open>base\<close> with \<open>newParams\<close>
  spread over it: a key of \<open>newParams\<close> has the value \<open>newParams\<close> gives it, every other key
  the value it has in \<open>base\<close>, and with no \<open>transformParams\<close> hook these are the parameters
  the executor is called with. Whatever that run returns or throws is the outcome of the
  call, and the context it leaves has \<open>recursiveDepth\<close> and \<open>isRecursiveCall\<close> as they were
  before the call. At or above the limit the call fails with the recursion-depth error,
  calls nothing and leaves the context as it is. The parameters a closure captured are
  those of the method call that installed it: a method run on \<open>params\<close> leaves the context
  holding the closure over \<open>params\<close>, when no hook writes \<open>recursiveCall\<close>. So the first
  recursive call of a request merges over the parameters of the request, and a later one
  over the parameters of the nested call before it.
\<close>

theorem recursiveCall_merges_over_the_closure_parameters:
  assumes "recursiveCall c = Some base"
  shows "(recursiveDepth c < maxRecursiveDepth c \<longrightarrow>
            (\<exists>r c' l.
               lifecycle shape ps pid ex (spread base newParams)
                 (Some (c\<lparr>recursiveDepth := recursiveDepth c + 1, isRecursiveCall := True\<rparr>)) 0 [] = (r, c', l) \<and>
               callRecursive shape ps pid ex newParams c =
                 (map_sum id Some r,
                  c'\<lparr>recursiveDepth := recursiveDepth c, isRecursiveCall := isRecursiveCall c\<rparr>, l)) \<and>
            recursiveDepth (fst (snd (callRecursive shape ps pid ex newParams c))) = recursiveDepth c \<and>
            isRecursiveCall (fst (snd (callRecursive shape ps pid ex newParams c))) = isRecursiveCall c) \<and>
         (maxRecursiveDepth c \<le> recursiveDepth c \<longrightarrow>
            callRecursive shape ps pid ex newParams c =
              (Inl (RecursiveDepthError (requestId c) (recursiveDepth c) (maxRecursiveDepth c)), c, [])) \<and>
         (\<forall>k. k \<notin> fst ` set newParams \<longrightarrow> map_of (spread base newParams) k = map_of base k) \<and>
         (\<forall>k v. distinct (map fst newParams) \<and> (k, v) \<in> set newParams \<longrightarrow>
            map_of (spread base newParams) k = Some v) \<and>
         (\<forall>m p. (\<forall>q \<in> set ps. transformParams q = None) \<and>
            ExecutorCall m p \<in> set (snd (snd (callRecursive shape ps pid ex newParams c))) \<longrightarrow>
            p = spread base newParams) \<and>
         (hooksLeave recursiveCall ps \<and>
          ((\<exists>mid. getProp params ''model'' = JStr mid) \<or> (\<exists>h. getProp params ''model'' = JModel h)) \<longrightarrow>
            recursiveCall (fst (snd (lifecycle shape ps pid ex params given now stamp))) = Some params)"
proof (intro conjI impI allI)
  assume d: "recursiveDepth c < maxRecursiveDepth c"
  obtain r c' l where run:
    "lifecycle shape ps pid ex (spread base newParams)
       (Some (c\<lparr>recursiveDepth := recursiveDepth c + 1, isRecursiveCall := True\<rparr>)) 0 [] = (r, c', l)"
    by (metis prod_cases3)
  have call: "callRecursive shape ps pid ex newParams c =
      (map_sum id Some r, c'\<lparr>recursiveDepth := recursiveDepth c, isRecursiveCall := isRecursiveCall c\<rparr>, l)"
    using d run assms by (cases r) (simp_all add: callRecursive_def recursiveCallFn_def Let_def)
  show "\<exists>r c' l.
      lifecycle shape ps pid ex (spread base newParams)
        (Some (c\<lparr>recursiveDepth := recursiveDepth c + 1, isRecursiveCall := True\<rparr>)) 0 [] = (r, c', l) \<and>
      callRecursive shape ps pid ex newParams c =
        (map_sum id Some r, c'\<lparr>recursiveDepth := recursiveDepth c, isRecursiveCall := isRecursiveCall c\<rparr>, l)"
    using run call by blast
  show "recursiveDepth (fst (snd (callRecursive shape ps pid ex newParams c))) = recursiveDepth c"
    by (simp add: call)
  show "isRecursiveCall (fst (snd (callRecursive shape ps pid ex newParams c))) = isRecursiveCall c"
    by (simp add: call)
next
  assume "maxRecursiveDepth c \<le> recursiveDepth c"
  then show "callRecursive shape ps pid ex newParams c =
      (Inl (RecursiveDepthError (requestId c) (recursiveDepth c) (maxRecursiveDepth c)), c, [])"
    using assms by (simp add: callRecursive_def recursiveCallFn_def)
next
  fix k assume "k \<notin> fst ` set newParams"
  then show "map_of (spread base newParams) k = map_of base k"
    by (rule map_of_spread_absent)
next
  fix k v assume "distinct (map fst newParams) \<and> (k, v) \<in> set newParams"
  then show "map_of (spread base newParams) k = Some v"
    by (intro map_of_spread_present) simp_all
next
  fix m p
  assume a: "(\<forall>q \<in> set ps. transformParams q = None) \<and>
    ExecutorCall m p \<in> set (snd (snd (callRecursive shape ps pid ex newParams c)))"
  show "p = spread base newParams"
  proof (cases "recursiveDepth c < maxRecursiveDepth c")
    case True
    obtain r c' l where run:
      "lifecycle shape ps pid ex (spread base newParams)
         (Some (c\<lparr>recursiveDepth := recursiveDepth c + 1, isRecursiveCall := True\<rparr>)) 0 [] = (r, c', l)"
      by (metis prod_cases3)
    have "snd (snd (callRecursive shape ps pid ex newParams c)) = l"
      using True run assms by (cases r) (simp_all add: callRecursive_def recursiveCallFn_def Let_def)
    then have "ExecutorCall m p \<in> set (snd (snd (lifecycle shape ps pid ex (spread base newParams)
         (Some (c\<lparr>recursiveDepth := recursiveDepth c + 1, isRecursiveCall := True\<rparr>)) 0 [])))"
      using a run by simp
    then show ?thesis
      using a by (intro lifecycle_executor_params [where ps = ps]) simp_all
  next
    case False
    then show ?thesis
      using a assms by (simp add: callRecursive_def recursiveCallFn_def)
  qed
next
  assume "hooksLeave recursiveCall ps \<and>
    ((\<exists>mid. getProp params ''model'' = JStr mid) \<or> (\<exists>h. getProp params ''model'' = JModel h))"
  then show "recursiveCall (fst (snd (lifecycle shape ps pid ex params given now stamp))) = Some params"
    by (intro lifecycle_installs_the_closure) simp_all
qed

text \<open>
  Witness for C1. The context of a request on \<open>textRequest\<close>, at depth 0 of 10, holds the
  closure over \<open>textRequest\<close>. A recursive call that overrides \<open>messages\<close> and adds a
  \<open>prompt\<close> calls the executor with the model of the request, the new messages and the
  prompt; the executor answers with the prompt; depth and flag are back at 0 and false, and
  the context now holds the closure over the merged parameters. At depth 10 of 10 the call
  is refused and the context is as it was.
\<close>

theorem recursiveCall_merges_over_the_closure_parameters_witness:
  "recursiveCall enteredContext = Some textRequest \<and>
   recursiveDepth enteredContext = 0 \<and> maxRecursiveDepth enteredContext = 10 \<and>
   \<not> isRecursiveCall enteredContext \<and>
   callRecursive GenerateText [resolver] ''openai'' echoing
       [(''messages'', JArr [JStr ''again'']), (''prompt'', JStr ''again'')] enteredContext =
     (Inr (Some ''again''),
      enteredContext\<lparr>recursiveCall :=
        Some [(''model'', JStr ''gpt-4''), (''messages'', JArr [JStr ''again'']), (''prompt'', JStr ''again'')]\<rparr>,
      [ResolveModelCall ''resolver'' ''gpt-4'',
       ExecutorCall (Model ''gpt-4'')
         [(''model'', JStr ''gpt-4''), (''messages'', JArr [JStr ''again'']), (''prompt'', JStr ''again'')]]) \<and>
   recursiveCall (enteredContext\<lparr>recursiveDepth := 10\<rparr>) = Some textRequest \<and>
   callRecursive GenerateText [resolver] ''openai'' echoing
       [(''messages'', JArr [JStr ''again'']), (''prompt'', JStr ''again'')]
       (enteredContext\<lparr>recursiveDepth := 10\<rparr>) =
     (Inl (RecursiveDepthError ''openai-gpt-4-k3j9'' 10 10), enteredContext\<lparr>recursiveDepth := 10\<rparr>, [])"
proof -
  let ?override = "[(''messages'', JArr [JStr ''again'']), (''prompt'', JStr ''again'')]"
  let ?merged = "[(''model'', JStr ''gpt-4''), (''messages'', JArr [JStr ''again'']), (''prompt'', JStr ''again'')]"
  have entered: "enteredContext =
      (createContext ''openai'' (JStr ''gpt-4'') textRequest 0 ''k3j9'')\<lparr>recursiveCall := Some textRequest\<rparr>"
    by (simp add: enteredContext_def echoing_def engine_defs example_defs Let_def)
  have held: "recursiveCall enteredContext = Some textRequest"
    "recursiveDepth enteredContext = 0" "maxRecursiveDepth enteredContext = 10"
    "\<not> isRecursiveCall enteredContext" "requestId enteredContext = ''openai-gpt-4-k3j9''"
    by (simp_all add: entered createContext_def)
  have merged: "spread textRequest ?override = ?merged"
    by (simp add: spread_def textRequest_def)
  have nested: "lifecycle GenerateText [resolver] ''openai'' echoing ?merged
      (Some (enteredContext\<lparr>recursiveDepth := recursiveDepth enteredContext + 1, isRecursiveCall := True\<rparr>)) 0 [] =
    (Inr ''again'',
     enteredContext\<lparr>recursiveDepth := 1, isRecursiveCall := True, recursiveCall := Some ?merged\<rparr>,
     [ResolveModelCall ''resolver'' ''gpt-4'', ExecutorCall (Model ''gpt-4'') ?merged])"
    by (simp add: entered echoing_def engine_defs example_defs Let_def)
  note call = recursiveCall_merges_over_the_closure_parameters [OF held(1),
      of GenerateText "[resolver]" "''openai''" echoing ?override]
  from call have "recursiveDepth enteredContext < maxRecursiveDepth enteredContext \<longrightarrow>
      (\<exists>r c' l.
         lifecycle GenerateText [resolver] ''openai'' echoing (spread textRequest ?override)
           (Some (enteredContext\<lparr>recursiveDepth := recursiveDepth enteredContext + 1,
              isRecursiveCall := True\<rparr>)) 0 [] = (r, c', l) \<and>
         callRecursive GenerateText [resolver] ''openai'' echoing ?override enteredContext =
           (map_sum id Some r,
            c'\<lparr>recursiveDepth := recursiveDepth enteredContext,
               isRecursiveCall := isRecursiveCall enteredContext\<rparr>, l))"
    by blast
  then obtain r c' l where
    run: "lifecycle GenerateText [resolver] ''openai'' echoing (spread textRequest ?override)
           (Some (enteredContext\<lparr>recursiveDepth := recursiveDepth enteredContext + 1,
              isRecursiveCall := True\<rparr>)) 0 [] = (r, c', l)"
    and res: "callRecursive GenerateText [resolver] ''openai'' echoing ?override enteredContext =
           (map_sum id Some r,
            c'\<lparr>recursiveDepth := recursiveDepth enteredContext,
               isRecursiveCall := isRecursiveCall enteredContext\<rparr>, l)"
    using held(2,3) by auto
  have parts: "r = Inr ''again''"
    "c' = enteredContext\<lparr>recursiveDepth := 1, isRecursiveCall := True, recursiveCall := Some ?merged\<rparr>"
    "l = [ResolveModelCall ''resolver'' ''gpt-4'', ExecutorCall (Model ''gpt-4'') ?merged]"
    using run nested by (simp_all only: merged prod.inject)
  have restored: "enteredContext\<lparr>recursiveDepth := 1, isRecursiveCall := True, recursiveCall := Some ?merged,
      recursiveDepth := recursiveDepth enteredContext, isRecursiveCall := isRecursiveCall enteredContext\<rparr> =
      enteredContext\<lparr>recursiveCall := Some ?merged\<rparr>"
    by (simp add: entered createContext_def)
  have below: "callRecursive GenerateText [resolver] ''openai'' echoing ?override enteredContext =
     (Inr (Some ''again''), enteredContext\<lparr>recursiveCall := Some ?merged\<rparr>,
      [ResolveModelCall ''resolver'' ''gpt-4'', ExecutorCall (Model ''gpt-4'') ?merged])"
    unfolding res parts restored by simp
  have held': "recursiveCall (enteredContext\<lparr>recursiveDepth := 10\<rparr>) = Some textRequest"
    using held(1) by simp
  from recursiveCall_merges_over_the_closure_parameters [OF held',
      of GenerateText "[resolver]" "''openai''" echoing ?override]
  have "maxRecursiveDepth (enteredContext\<lparr>recursiveDepth := 10\<rparr>) \<le>
        recursiveDepth (enteredContext\<lparr>recursiveDepth := 10\<rparr>) \<longrightarrow>
      callRecursive GenerateText [resolver] ''openai'' echoing ?override (enteredContext\<lparr>recursiveDepth := 10\<rparr>) =
        (Inl (RecursiveDepthError (requestId (enteredContext\<lparr>recursiveDepth := 10\<rparr>))
               (recursiveDepth (enteredContext\<lparr>recursiveDepth := 10\<rparr>))
               (maxRecursiveDepth (enteredContext\<lparr>recursiveDepth := 10\<rparr>))),
         enteredContext\<lparr>recursiveDepth := 10\<rparr>, [])"
    by blast
  then have at_limit: "callRecursive GenerateText [resolver] ''openai'' echoing ?override
       (enteredContext\<lparr>recursiveDepth := 10\<rparr>) =
     (Inl (RecursiveDepthError ''openai-gpt-4-k3j9'' 10 10), enteredContext\<lparr>recursiveDepth := 10\<rparr>, [])"
    using held(3,5) by simp
  show ?thesis
    using held(1-4) held' below at_limit by (simp only: simp_thms)
qed

text \<open>
  Counterexample to C1 as stated. The same request, after a first recursive call that set
  the temperature, makes a second one that sets a seed. The original parameters of the
  request are still \<open>textRequest\<close>, the depth is below the limit, and the executor is called
  with the temperature of the first call as well as the seed: the override is merged over
  the parameters of the first nested call, not over the original ones.
\<close>

theorem second_recursiveCall_builds_on_the_first_override:
  "originalParams afterFirstCall = textRequest \<and>
   recursiveDepth afterFirstCall < maxRecursiveDepth afterFirstCall \<and>
   snd (snd (callRecursive GenerateText [resolver] ''openai'' echoing [(''seed'', JNum 7)] afterFirstCall)) =
     [ResolveModelCall ''resolver'' ''gpt-4'',
      ExecutorCall (Model ''gpt-4'')
        [(''model'', JStr ''gpt-4''), (''messages'', JArr []), (''temperature'', JNum 1), (''seed'', JNum 7)]] \<and>
   spread textRequest [(''seed'', JNum 7)] =
     [(''model'', JStr ''gpt-4''), (''messages'', JArr []), (''seed'', JNum 7)] \<and>
   ExecutorCall (Model ''gpt-4'') (spread textRequest [(''seed'', JNum 7)]) \<notin>
     set (snd (snd (callRecursive GenerateText [resolver] ''openai'' echoing [(''seed'', JNum 7)] afterFirstCall)))"
  by (simp add: afterFirstCall_def enteredContext_def echoing_def callRecursive_def recursiveCallFn_def
      engine_defs example_defs Let_def)

end
